theory Spec2Isabelle
  imports Complex_Main "HOL-Library.Sublist"
begin

section \<open>Strings\<close>

text \<open>
  A Python \<open>str\<close> is modelled as a \<open>string\<close> whose characters are code points
  below 256 (Latin-1). Every literal and every explicit character range of
  \<open>main.py\<close> lies in that range. Text with larger code points is outside the model.
\<close>

definition isspace :: "char \<Rightarrow> bool" where
  \<comment> \<open>\<open>str.isspace\<close> and the regex class \<open>\s\<close>: the same set, here up to code point 255.\<close>
  "isspace c = (let n = (of_char c :: nat) in
     (9 \<le> n \<and> n \<le> 13) \<or> (28 \<le> n \<and> n \<le> 32) \<or> n = 133 \<or> n = 160)"

definition isdigit :: "char \<Rightarrow> bool" where
  \<comment> \<open>the regex class \<open>\d\<close>, up to code point 255: the ten ASCII digits.\<close>
  "isdigit c = (let n = (of_char c :: nat) in 48 \<le> n \<and> n \<le> 57)"

definition strip :: "string \<Rightarrow> string" where
  \<comment> \<open>\<open>s.strip()\<close>\<close>
  "strip s = rev (dropWhile isspace (rev (dropWhile isspace s)))"

fun str_in :: "string \<Rightarrow> string \<Rightarrow> bool" where
  \<comment> \<open>\<open>h in s\<close> on strings: \<open>h\<close> occurs in \<open>s\<close> as a contiguous run.\<close>
  "str_in h [] = (h = [])"
| "str_in h (c # cs) = (prefix h (c # cs) \<or> str_in h cs)"

definition replace_chr :: "char \<Rightarrow> string \<Rightarrow> string \<Rightarrow> string" where
  \<comment> \<open>\<open>s.replace(c, r)\<close> for a one-character \<open>c\<close>\<close>
  "replace_chr c r s = concat (map (\<lambda>x. if x = c then r else [x]) s)"

fun split_on :: "char \<Rightarrow> string \<Rightarrow> string list" where
  \<comment> \<open>\<open>s.split(sep)\<close> for a one-character \<open>sep\<close>: never empty, \<open>''.split(sep) = ['']\<close>\<close>
  "split_on sep [] = [[]]"
| "split_on sep (c # cs) =
     (if c = sep then [] # split_on sep cs
      else (case split_on sep cs of l # ls \<Rightarrow> (c # l) # ls | [] \<Rightarrow> [[c]]))"

fun join_with :: "char \<Rightarrow> string list \<Rightarrow> string" where
  \<comment> \<open>\<open>sep.join(parts)\<close> for a one-character \<open>sep\<close>\<close>
  "join_with sep [] = []"
| "join_with sep [l] = l"
| "join_with sep (l # ls) = l @ sep # join_with sep ls"

abbreviation newline :: char where "newline \<equiv> CHR 0x0A"

section \<open>Regular expressions\<close>

text \<open>
  The patterns of \<open>main.py\<close> are sequences of quantified character classes, group
  brackets and the anchor \<open>$\<close>. \<open>run\<close> lists the matches of such a sequence at one
  start position in the order a backtracking matcher tries them: a greedy quantifier
  tries its longest run first, a lazy one its shortest. A match is the list of the
  positions of its group brackets. \<open>re_search\<close> is \<open>re.search\<close>: the first match at the
  leftmost start position that has one.
\<close>

datatype item =
    Rep "char \<Rightarrow> bool" nat "nat option" bool
      \<comment> \<open>class, least count, greatest count (\<open>None\<close>: unbounded), greedy\<close>
  | Open
  | Close
  | Eol

definition counts :: "(char \<Rightarrow> bool) \<Rightarrow> nat \<Rightarrow> nat option \<Rightarrow> bool \<Rightarrow> string \<Rightarrow> nat list" where
  "counts P lo hi greedy rest =
     (let n = length (takeWhile P rest);
          m = (case hi of None \<Rightarrow> n | Some h \<Rightarrow> min n h);
          js = [lo ..< Suc m]
      in if greedy then rev js else js)"

definition at_eol :: "string \<Rightarrow> nat \<Rightarrow> bool" where
  \<comment> \<open>\<open>$\<close> without MULTILINE: at the end, or before a newline that ends the string\<close>
  "at_eol s i = (i = length s \<or> (Suc i = length s \<and> s ! i = newline))"

fun run :: "item list \<Rightarrow> string \<Rightarrow> nat \<Rightarrow> nat list list" where
  "run [] s i = [[]]"
| "run (Open # r) s i = map ((#) i) (run r s i)"
| "run (Close # r) s i = map ((#) i) (run r s i)"
| "run (Eol # r) s i = (if at_eol s i then run r s i else [])"
| "run (Rep P lo hi g # r) s i =
     concat (map (\<lambda>j. run r s (i + j)) (counts P lo hi g (drop i s)))"

fun first_match :: "item list \<Rightarrow> string \<Rightarrow> nat list \<Rightarrow> nat list option" where
  \<comment> \<open>the start positions are tried in order\<close>
  "first_match p s [] = None"
| "first_match p s (i # starts) =
     (case run p s i of
        [] \<Rightarrow> first_match p s starts
      | m # _ \<Rightarrow> Some m)"

definition re_search :: "item list \<Rightarrow> string \<Rightarrow> nat list option" where
  "re_search p s = first_match p s [0 ..< Suc (length s)]"

definition slice :: "string \<Rightarrow> nat \<Rightarrow> nat \<Rightarrow> string" where
  \<comment> \<open>\<open>s[a:b]\<close>\<close>
  "slice s a b = take (b - a) (drop a s)"

definition star :: "(char \<Rightarrow> bool) \<Rightarrow> item" where "star P = Rep P 0 None True"
definition plus :: "(char \<Rightarrow> bool) \<Rightarrow> item" where "plus P = Rep P 1 None True"
definition plus_lazy :: "(char \<Rightarrow> bool) \<Rightarrow> item" where "plus_lazy P = Rep P 1 None False"
definition exactly :: "nat \<Rightarrow> (char \<Rightarrow> bool) \<Rightarrow> item" where "exactly n P = Rep P n (Some n) True"

definition dot :: "char \<Rightarrow> bool" where
  \<comment> \<open>\<open>.\<close> without DOTALL\<close>
  "dot c = (c \<noteq> newline)"

section \<open>Line Classifier: \<open>clean_text\<close>\<close>

definition headers_clean :: "string list" where
  "headers_clean =
     [''Rela'' @ [CHR 0xE7, CHR 0xE3] @ ''o Anual'', ''COOPERATIVA'', ''Rubrica'',
      ''TRABALHADOR'', ''P'' @ [CHR 0xE1] @ ''gina'']"

definition is_header_clean :: "string \<Rightarrow> bool" where
  \<comment> \<open>\<open>any(header in line for header in [...])\<close> of \<open>clean_text\<close>\<close>
  "is_header_clean line = list_ex (\<lambda>header. str_in header line) headers_clean"

definition six_digits :: "item list" where
  \<comment> \<open>\<open>r'\d{6}'\<close>\<close>
  "six_digits = [exactly 6 isdigit]"

definition month_header :: string where
  "month_header = ''JAN FEV MAR ABR MAI JUN JUL AGO SET OUT NOV DEZ TOTAL''"

definition dropped :: "string \<Rightarrow> bool" where
  \<comment> \<open>the five \<open>continue\<close> tests of the loop body that do not touch the flag\<close>
  "dropped line =
     (prefix ''--- Page'' line
      \<or> is_header_clean line
      \<or> prefix ''_'' line \<or> strip line = []
      \<or> str_in month_header line
      \<or> strip (replace_chr CHR ''-'' [] (strip line)) = [])"

fun clean_loop :: "bool \<Rightarrow> string list \<Rightarrow> string list" where
  \<comment> \<open>the \<open>for\<close> loop of \<open>clean_text\<close>; the flag is \<open>skip_until_next_person\<close>,
      the result the lines appended to \<open>cleaned_lines\<close> from here on\<close>
  "clean_loop skip [] = []"
| "clean_loop skip (line # rest) =
     (if dropped line then clean_loop skip rest
      else if str_in ''TOTALIZA'' line then clean_loop True rest
      else
        let skip' = (if re_search six_digits line \<noteq> None \<and> \<not> prefix ''239'' line
                     then False else skip)
        in if skip' then clean_loop skip' rest
           else line # clean_loop skip' rest)"

definition clean_text :: "string \<Rightarrow> string" where
  "clean_text text = join_with newline (clean_loop False (split_on newline text))"

section \<open>Block Segmenter and Field Extractor: \<open>extract_data_from_txt\<close>\<close>

record rec =
  name :: string
  code :: string
  role :: string
  "value" :: "string option"
  percentage :: "string option"
  percentage_float :: "rat option"
  total :: "string option"
  total_float :: "rat option"

text \<open>
  A \<open>rec\<close> is one of the dictionaries of the result list. A key the dictionary does
  not have is \<open>None\<close>. The numbers the code holds as binary floating point are
  rationals here: arithmetic is exact, and rounding to 53 bits, overflow and the values
  \<open>inf\<close> and \<open>nan\<close> are not modelled.
\<close>

definition headers_extract :: "string list" where
  "headers_extract =
     [''Rela'' @ [CHR 0xE7, CHR 0xE3] @ ''o'', ''COOPERATIVA'', ''Rubrica'',
      ''TRABALHADOR'', ''P'' @ [CHR 0xE1] @ ''gina'']"

definition is_header_extract :: "string \<Rightarrow> bool" where
  \<comment> \<open>\<open>any(header in line for header in [...])\<close> of \<open>extract_data_from_txt\<close>\<close>
  "is_header_extract line = list_ex (\<lambda>header. str_in header line) headers_extract"

fun prepass :: "string list \<Rightarrow> string list" where
  \<comment> \<open>the first loop of \<open>extract_data_from_txt\<close>, over the lines of the file\<close>
  "prepass [] = []"
| "prepass (raw # rest) =
     (let line = strip raw in
      if line = [] \<or> prefix ''_'' line \<or> prefix ''-'' line then prepass rest
      else if is_header_extract line then prepass rest
      else line # prepass rest)"

definition name_class :: "char \<Rightarrow> bool" where
  \<comment> \<open>\<open>[A-Za-z\u00C0-\u00D6\u00D8-\u00F6\u00F8-\u00FF\s]\<close>\<close>
  "name_class c = (let n = (of_char c :: nat) in
     (65 \<le> n \<and> n \<le> 90) \<or> (97 \<le> n \<and> n \<le> 122) \<or> (192 \<le> n \<and> n \<le> 214)
     \<or> (216 \<le> n \<and> n \<le> 246) \<or> (248 \<le> n \<and> n \<le> 255) \<or> isspace c)"

definition digit_or_dot :: "char \<Rightarrow> bool" where
  \<comment> \<open>\<open>[\d\.]\<close>\<close>
  "digit_or_dot c = (isdigit c \<or> c = CHR ''.'')"

definition comma :: "char \<Rightarrow> bool" where
  "comma c = (c = CHR '','')"

definition person_pattern :: "item list" where
  \<comment> \<open>\<open>r'([A-Za-z...\s]+?)\s+(\d{6})\s+(.+)$'\<close>\<close>
  "person_pattern =
     [Open, plus_lazy name_class, Close, plus isspace, Open, exactly 6 isdigit, Close,
      plus isspace, Open, plus dot, Close, Eol]"

definition value_pattern :: "item list" where
  \<comment> \<open>\<open>r'.*\s+([\d\.]+,\d+)$'\<close>\<close>
  "value_pattern =
     [star dot, plus isspace, Open, plus digit_or_dot, exactly 1 comma, plus isdigit, Close, Eol]"

definition person_match :: "string \<Rightarrow> (string \<times> string \<times> string) option" where
  \<comment> \<open>the three stripped groups of \<open>person_match\<close>, or \<open>None\<close> when the search fails\<close>
  "person_match person_line =
     (case re_search person_pattern person_line of
        Some [a1, b1, a2, b2, a3, b3] \<Rightarrow>
          Some (strip (slice person_line a1 b1), strip (slice person_line a2 b2),
                strip (slice person_line a3 b3))
      | _ \<Rightarrow> None)"

definition value_match :: "string \<Rightarrow> string option" where
  \<comment> \<open>the stripped group of \<open>value_match\<close>, or \<open>None\<close> when the search fails\<close>
  "value_match produtividade_line =
     (case re_search value_pattern produtividade_line of
        Some [a, b] \<Rightarrow> Some (strip (slice produtividade_line a b))
      | _ \<Rightarrow> None)"

definition new_person :: "string \<Rightarrow> string \<Rightarrow> string \<Rightarrow> string \<Rightarrow> rec" where
  "new_person n c r v =
     \<lparr>name = n, code = c, role = r, value = Some v, percentage = None,
      percentage_float = None, total = None, total_float = None\<rparr>"

function scan :: "string list \<Rightarrow> nat \<Rightarrow> rec list" where
  \<comment> \<open>the \<open>while\<close> loop of \<open>extract_data_from_txt\<close> from cursor \<open>i\<close> on: the records it
      appends to \<open>results\<close>. The test \<open>i < len(cleaned_lines) - 2\<close> is on integers.\<close>
  "scan cleaned_lines i =
     (if i + 2 < length cleaned_lines then
        (case person_match (cleaned_lines ! i) of
           Some (n, c, r) \<Rightarrow>
             (case value_match (cleaned_lines ! (i + 1)) of
                Some v \<Rightarrow> new_person n c r v # scan cleaned_lines (i + 3)
              | None \<Rightarrow> scan cleaned_lines (i + 3))
         | None \<Rightarrow> scan cleaned_lines (i + 1))
      else [])"
  by pat_completeness auto
termination
  by (relation "measure (\<lambda>(cleaned_lines, i). length cleaned_lines - i)") auto

declare scan.simps [simp del]

definition extract_data_from_txt :: "string list \<Rightarrow> rec list" where
  \<comment> \<open>the argument is \<open>file.readlines()\<close> of the file at \<open>txt_path\<close>\<close>
  "extract_data_from_txt lines = scan (prepass lines) 0"

section \<open>Aggregator: totals, percentages, formatting\<close>

subsection \<open>\<open>float(str)\<close>\<close>

text \<open>
  \<open>py_float\<close> reads a decimal literal as \<open>float\<close> does: surrounding whitespace, an
  optional sign, digits with an optional point (digits may be grouped by single
  underscores), an optional exponent. \<open>None\<close> is \<open>ValueError\<close>. The result is the exact
  value of the literal. The spellings \<open>inf\<close>, \<open>infinity\<close> and \<open>nan\<close>, which \<open>float\<close>
  accepts too, denote no rational: they are not modelled. The whitespace \<open>float\<close>
  removes is not quite that of \<open>str.strip\<close>: the four separators 28 to 31 stay and make
  the conversion fail.
\<close>

definition float_space :: "char \<Rightarrow> bool" where
  "float_space c = (let n = (of_char c :: nat) in
     (9 \<le> n \<and> n \<le> 13) \<or> n = 32 \<or> n = 133 \<or> n = 160)"

definition float_strip :: "string \<Rightarrow> string" where
  "float_strip s = rev (dropWhile float_space (rev (dropWhile float_space s)))"

definition nat_of_digits :: "string \<Rightarrow> nat" where
  "nat_of_digits ds = foldl (\<lambda>acc c. 10 * acc + (of_char c - 48)) 0 ds"

fun no_double_underscore :: "string \<Rightarrow> bool" where
  "no_double_underscore (a # b # cs) =
     (\<not> (a = CHR ''_'' \<and> b = CHR ''_'') \<and> no_double_underscore (b # cs))"
| "no_double_underscore _ = True"

definition digitpart :: "string \<Rightarrow> string option" where
  \<comment> \<open>the digits of \<open>digit (["_"] digit)*\<close>, or \<open>None\<close>\<close>
  "digitpart ds =
     (if ds \<noteq> [] \<and> isdigit (hd ds) \<and> isdigit (last ds)
         \<and> list_all (\<lambda>c. isdigit c \<or> c = CHR ''_'') ds \<and> no_double_underscore ds
      then Some (filter isdigit ds) else None)"

definition mantissa :: "string \<Rightarrow> rat option" where
  \<comment> \<open>\<open>[digitpart] "." digitpart | digitpart ["."]\<close>\<close>
  "mantissa m =
     (if CHR ''.'' \<notin> set m then map_option (\<lambda>ds. of_nat (nat_of_digits ds)) (digitpart m)
      else
        let ip = takeWhile (\<lambda>c. c \<noteq> CHR ''.'') m;
            fp = tl (dropWhile (\<lambda>c. c \<noteq> CHR ''.'') m)
        in if ip = [] \<and> fp = [] then None
           else
             (case (if ip = [] then Some [] else digitpart ip,
                    if fp = [] then Some [] else digitpart fp) of
                (Some a, Some b) \<Rightarrow>
                  Some (of_nat (nat_of_digits a) + of_nat (nat_of_digits b) / 10 ^ length b)
              | _ \<Rightarrow> None))"

definition split_sign :: "string \<Rightarrow> bool \<times> string" where
  "split_sign s =
     (case s of
        c # cs \<Rightarrow> if c = CHR ''-'' then (True, cs) else if c = CHR ''+'' then (False, cs)
                  else (False, s)
      | [] \<Rightarrow> (False, s))"

definition exponent :: "string \<Rightarrow> int option" where
  \<comment> \<open>what follows \<open>e\<close> or \<open>E\<close>: \<open>[sign] digitpart\<close>\<close>
  "exponent e =
     (case split_sign e of (neg, ds) \<Rightarrow>
        map_option (\<lambda>d. if neg then - int (nat_of_digits d) else int (nat_of_digits d))
          (digitpart ds))"

definition is_e :: "char \<Rightarrow> bool" where
  "is_e c = (c = CHR ''e'' \<or> c = CHR ''E'')"

definition floatnumber :: "string \<Rightarrow> rat option" where
  \<comment> \<open>\<open>number [exponent]\<close>\<close>
  "floatnumber u =
     (let m = takeWhile (\<lambda>c. \<not> is_e c) u; rest = dropWhile (\<lambda>c. \<not> is_e c) u in
      case mantissa m of
        None \<Rightarrow> None
      | Some q \<Rightarrow>
          if rest = [] then Some q
          else (case exponent (tl rest) of
                  None \<Rightarrow> None
                | Some k \<Rightarrow> Some (if k < 0 then q / 10 ^ nat (- k) else q * 10 ^ nat k)))"

definition py_float :: "string \<Rightarrow> rat option" where
  "py_float s =
     (case split_sign (float_strip s) of (neg, u) \<Rightarrow>
        map_option (\<lambda>q. if neg then - q else q) (floatnumber u))"

definition parse_value :: "string \<Rightarrow> rat option" where
  \<comment> \<open>\<open>float(item['value'].replace('.', '').replace(',', '.'))\<close>\<close>
  "parse_value v = py_float (replace_chr CHR '','' ''.'' (replace_chr CHR ''.'' [] v))"

subsection \<open>\<open>calculate_total_value\<close>\<close>

definition get_value :: "rec \<Rightarrow> string option" where
  \<comment> \<open>\<open>item.get('value')\<close> when it is truthy: the key is there and its string is not
      empty; \<open>None\<close> when the \<open>if\<close> skips the item\<close>
  "get_value item = (case value item of None \<Rightarrow> None | Some v \<Rightarrow> if v = [] then None else Some v)"

definition add_value :: "rat \<Rightarrow> rec \<Rightarrow> rat" where
  \<comment> \<open>one round of the loop of \<open>calculate_total_value\<close>; the \<open>except\<close> branch only prints\<close>
  "add_value running item =
     (case get_value item of
        None \<Rightarrow> running
      | Some v \<Rightarrow>
          (case parse_value v of
             Some value_float \<Rightarrow> running + value_float
           | None \<Rightarrow> running))"

definition calculate_total_value :: "rec list \<Rightarrow> rat" where
  "calculate_total_value data = foldl add_value 0 data"

subsection \<open>\<open>format_brazilian_number\<close>\<close>

definition digit_char :: "nat \<Rightarrow> char" where
  \<comment> \<open>the character of a digit; only ever applied to numbers below ten\<close>
  "digit_char n = ''0123456789'' ! (n mod 10)"

function str_nat :: "nat \<Rightarrow> string" where
  \<comment> \<open>the decimal digits of a natural number\<close>
  "str_nat n = (if n < 10 then [digit_char n] else str_nat (n div 10) @ [digit_char (n mod 10)])"
  by pat_completeness auto
termination
  by (relation "measure id") auto

declare str_nat.simps [simp del]

definition round_half_even :: "rat \<Rightarrow> int" where
  "round_half_even x =
     (let f = \<lfloor>x\<rfloor>; r = x - of_int f in
      if r < 1 / 2 then f else if 1 / 2 < r then f + 1 else if even f then f else f + 1)"

definition zfill :: "nat \<Rightarrow> string \<Rightarrow> string" where
  "zfill d s = replicate (d - length s) CHR ''0'' @ s"

definition scaled :: "rat \<Rightarrow> nat \<Rightarrow> nat" where
  \<comment> \<open>the magnitude of the number in units of the last printed place, ties to even\<close>
  "scaled number d = nat (round_half_even (\<bar>number\<bar> * 10 ^ d))"

definition format_fixed :: "rat \<Rightarrow> nat \<Rightarrow> string" where
  \<comment> \<open>\<open>f"{number:.{decimal_places}f}"\<close>: correctly rounded, ties to even, a point only
      when there are decimals, a minus sign for a negative number\<close>
  "format_fixed number d =
     (let m = scaled number d;
          body = str_nat (m div 10 ^ d) @
                 (if d = 0 then [] else CHR ''.'' # zfill d (str_nat (m mod 10 ^ d)))
      in if number < 0 then CHR ''-'' # body else body)"

fun group_loop :: "nat \<Rightarrow> string \<Rightarrow> string \<Rightarrow> string" where
  \<comment> \<open>the loop over \<open>enumerate(reversed(integer_part))\<close>: index, characters left, \<open>result\<close>\<close>
  "group_loop i [] result = result"
| "group_loop i (char # rest) result =
     group_loop (Suc i) rest
       (char # (if 0 < i \<and> i mod 3 = 0 then CHR ''.'' # result else result))"

definition format_brazilian_number :: "rat \<Rightarrow> nat \<Rightarrow> string" where
  "format_brazilian_number number decimal_places =
     (let formatted = format_fixed number decimal_places;
          parts = split_on CHR ''.'' formatted;
          integer_part = (case parts of p # _ \<Rightarrow> p | [] \<Rightarrow> []);
          decimal_part = (case parts of _ # p # _ \<Rightarrow> p | _ \<Rightarrow> []);
          integer_part = (if 3 < length integer_part
                          then group_loop 0 (rev integer_part) [] else integer_part)
      in if decimal_part \<noteq> [] then integer_part @ CHR '','' # decimal_part
         else integer_part)"

subsection \<open>\<open>calculate_percentages_and_distribution\<close>\<close>

definition fallback :: "rat option \<Rightarrow> rec \<Rightarrow> rec" where
  \<comment> \<open>the \<open>except (ValueError, TypeError, ZeroDivisionError)\<close> branch\<close>
  "fallback distribution_amount item =
     (let item = item\<lparr>percentage := Some ''0,000000'', percentage_float := Some 0\<rparr>
      in (case distribution_amount of
            None \<Rightarrow> item
          | Some _ \<Rightarrow> item\<lparr>total := Some ''0,00'', total_float := Some 0\<rparr>))"

datatype error = ValueError | ZeroDivisionError

definition try_percentage :: "rat \<Rightarrow> string \<Rightarrow> error + rat" where
  \<comment> \<open>the first three statements of the \<open>try\<close> block: \<open>float\<close> raises \<open>ValueError\<close>, the
      division raises \<open>ZeroDivisionError\<close> when \<open>total_value\<close> is zero; both before anything
      is assigned to the item\<close>
  "try_percentage total_value v =
     (case parse_value v of
        None \<Rightarrow> Inl ValueError
      | Some value_float \<Rightarrow>
          if total_value = 0 then Inl ZeroDivisionError
          else Inr ((value_float / total_value) * 100))"

definition enrich :: "rat \<Rightarrow> rat option \<Rightarrow> rec \<Rightarrow> rec" where
  \<comment> \<open>one round of the second loop\<close>
  "enrich total_value distribution_amount item =
     (case get_value item of
        None \<Rightarrow> item
      | Some v \<Rightarrow>
          (case try_percentage total_value v of
             Inl _ \<Rightarrow> fallback distribution_amount item
           | Inr pct \<Rightarrow>
                (let item = item\<lparr>percentage := Some (format_brazilian_number pct 6),
                                  percentage_float := Some pct\<rparr>
                 in (case distribution_amount of
                       None \<Rightarrow> item
                     | Some amount \<Rightarrow>
                         (let distribution = (pct / 100) * amount
                          in item\<lparr>total := Some (format_brazilian_number distribution 2),
                                  total_float := Some distribution\<rparr>)))))"

definition calculate_percentages_and_distribution :: "rec list \<Rightarrow> rat option \<Rightarrow> rec list" where
  "calculate_percentages_and_distribution data distribution_amount =
     (if data = [] then data
      else
        let total_value = calculate_total_value data
        in map (enrich total_value distribution_amount) data)"

section \<open>Notions of the specification\<close>

text \<open>
  The definitions of this section are not code of \<open>main.py\<close>: they say, in the words of
  the specification, what the theorems below compare the code with. \<open>locale_number\<close> is
  the decimal-grouped number of \<open>4.2\<close>; \<open>chunks3\<close> and \<open>grouped\<close> are the 3-digit clusters
  separated by \<open>.\<close> of \<open>4.3\<close>; \<open>rounds_to\<close> and \<open>decimal\<close> say what rounding to a
  precision and printing digits mean; \<open>parses\<close> is a record whose value converts.
\<close>

definition parses :: "rec \<Rightarrow> bool" where
  \<comment> \<open>the record has a \<open>value\<close> and the locale conversion of it succeeds\<close>
  "parses item = (case value item of None \<Rightarrow> False | Some v \<Rightarrow> parse_value v \<noteq> None)"

definition value_float :: "rec \<Rightarrow> rat" where
  \<comment> \<open>the number the record's \<open>value\<close> converts to; \<open>0\<close> when there is none\<close>
  "value_float item =
     (case value item of
        None \<Rightarrow> 0
      | Some v \<Rightarrow> (case parse_value v of None \<Rightarrow> 0 | Some q \<Rightarrow> q))"

definition sum_percentage_float :: "rec list \<Rightarrow> rat" where
  "sum_percentage_float data =
     sum_list (map (\<lambda>item. case percentage_float item of None \<Rightarrow> 0 | Some p \<Rightarrow> p) data)"

definition locale_number :: "string \<Rightarrow> bool" where
  \<comment> \<open>one or more digits and dots, then a comma, then one or more digits\<close>
  "locale_number tok =
     (let a = takeWhile (\<lambda>c. c \<noteq> CHR '','') tok; b = drop (Suc (length a)) tok in
      a \<noteq> [] \<and> list_all digit_or_dot a \<and> length a < length tok
      \<and> b \<noteq> [] \<and> list_all isdigit b)"

definition rounds_to :: "nat \<Rightarrow> rat \<Rightarrow> bool" where
  \<comment> \<open>\<open>m\<close> is \<open>y\<close> rounded to the nearest integer, a tie going to the even one\<close>
  "rounds_to m y =
     (\<bar>of_nat m - y\<bar> \<le> 1 / 2 \<and> (\<bar>of_nat m - y\<bar> = 1 / 2 \<longrightarrow> even m))"

definition decimal :: "string \<Rightarrow> nat \<Rightarrow> bool" where
  \<comment> \<open>\<open>s\<close> is the decimal numeral of \<open>n\<close>: digits, no leading zero unless it is the only digit\<close>
  "decimal s n =
     (s \<noteq> [] \<and> list_all isdigit s \<and> nat_of_digits s = n
      \<and> (length s = 1 \<or> hd s \<noteq> CHR ''0''))"

function chunks3 :: "string \<Rightarrow> string list" where
  \<comment> \<open>the clusters of three, counted from the right; the leftmost one may be shorter\<close>
  "chunks3 s =
     (if length s \<le> 3 then [s]
      else chunks3 (take (length s - 3) s) @ [drop (length s - 3) s])"
  by pat_completeness auto
termination
  by (relation "measure length") auto

declare chunks3.simps [simp del]

definition grouped :: "string \<Rightarrow> string" where
  \<comment> \<open>the clusters separated by \<open>.\<close>\<close>
  "grouped s = join_with CHR ''.'' (chunks3 s)"

section \<open>Properties of the Line Classifier\<close>

lemma split_on_no_sep: "l \<in> set (split_on sep t) \<Longrightarrow> sep \<notin> set l"
proof (induction t arbitrary: l)
  case Nil
  then show ?case by simp
next
  case (Cons c cs)
  then show ?case
    by (cases "split_on sep cs") (auto split: if_splits)
qed

lemma split_on_append_line:
  "sep \<notin> set l \<Longrightarrow> split_on sep (l @ sep # t) = l # split_on sep t"
  by (induction l) auto

lemma split_on_line: "sep \<notin> set l \<Longrightarrow> split_on sep l = [l]"
  by (induction l) auto

lemma split_join:
  "ls \<noteq> [] \<Longrightarrow> \<forall>l \<in> set ls. sep \<notin> set l \<Longrightarrow> split_on sep (join_with sep ls) = ls"
proof (induction sep ls rule: join_with.induct)
  case (1 sep)
  then show ?case by simp
next
  case (2 sep l)
  then show ?case by (simp add: split_on_line)
next
  case (3 sep l v va)
  then show ?case by (simp add: split_on_append_line)
qed

lemma clean_loop_kept:
  "l \<in> set (clean_loop skip ls) \<Longrightarrow> l \<in> set ls \<and> \<not> dropped l \<and> \<not> str_in ''TOTALIZA'' l"
  by (induction skip ls rule: clean_loop.induct) (auto simp: Let_def split: if_splits)

lemma clean_loop_fixed:
  "\<forall>l \<in> set ls. \<not> dropped l \<and> \<not> str_in ''TOTALIZA'' l \<Longrightarrow> clean_loop False ls = ls"
  by (induction ls) (auto simp: Let_def)

lemma dropped_empty: "dropped []"
  by (simp add: dropped_def strip_def)

text \<open>
  Claim C3. On the text whose lines are \<open>TOTALIZACAO X\<close>, \<open>239001 foo\<close>,
  \<open>123456 Jane Doe ANALISTA\<close>, \<open>100,50\<close>, \<open>extra\<close>, \<open>clean_text\<close> returns exactly the last
  three lines: the marker line sets the flag and is dropped, the line that starts with
  \<open>239\<close> does not clear the flag and is dropped, and the line with \<open>123456\<close> clears
  the flag and is kept.
\<close>

theorem clean_text_skip_section:
  "clean_text (join_with newline [''TOTALIZACAO X'', ''239001 foo'', ''123456 Jane Doe ANALISTA'',
      ''100,50'', ''extra''])
   = join_with newline [''123456 Jane Doe ANALISTA'', ''100,50'', ''extra'']
   \<and> clean_loop False [''TOTALIZACAO X'', ''239001 foo'', ''123456 Jane Doe ANALISTA'',
      ''100,50'', ''extra'']
   = [''123456 Jane Doe ANALISTA'', ''100,50'', ''extra'']
   \<and> clean_loop False [''TOTALIZACAO X''] = []
   \<and> clean_loop True [''239001 foo''] = []
   \<and> clean_loop True [''123456 Jane Doe ANALISTA''] = [''123456 Jane Doe ANALISTA'']"
  by code_simp

text \<open>
  Claim C4. \<open>clean_text\<close> is idempotent: for every text, cleaning the cleaned text
  returns it unchanged.
\<close>

theorem clean_text_idempotent: "clean_text (clean_text t) = clean_text t"
proof (cases "clean_loop False (split_on newline t) = []")
  case True
  then have "clean_text t = []" by (simp add: clean_text_def)
  then show ?thesis by (simp add: clean_text_def dropped_empty)
next
  case False
  let ?k = "clean_loop False (split_on newline t)"
  have nl: "\<forall>l \<in> set ?k. newline \<notin> set l"
    using clean_loop_kept split_on_no_sep by blast
  have ok: "\<forall>l \<in> set ?k. \<not> dropped l \<and> \<not> str_in ''TOTALIZA'' l"
    using clean_loop_kept by blast
  have "split_on newline (join_with newline ?k) = ?k"
    using False nl by (rule split_join)
  then show ?thesis
    by (simp add: clean_text_def clean_loop_fixed [OF ok])
qed

section \<open>Properties of the Aggregator\<close>

lemma parse_value_empty: "parse_value [] = None"
  by (simp add: parse_value_def replace_chr_def py_float_def float_strip_def split_sign_def
      floatnumber_def mantissa_def digitpart_def)

lemma add_value_eq: "add_value acc item = acc + value_float item"
  by (auto simp: add_value_def value_float_def get_value_def parse_value_empty
      split: option.splits)

lemma foldl_add_value: "foldl add_value acc data = acc + sum_list (map value_float data)"
  by (induction data arbitrary: acc) (simp_all add: add_value_eq)

lemma total_value_sum: "calculate_total_value data = sum_list (map value_float data)"
  by (simp add: calculate_total_value_def foldl_add_value)

lemmas float_eval =
  parse_value_def replace_chr_def py_float_def float_strip_def float_space_def split_sign_def
  floatnumber_def is_e_def mantissa_def digitpart_def isdigit_def nat_of_digits_def

lemmas aggregate_eval =
  calculate_percentages_and_distribution_def calculate_total_value_def add_value_def
  get_value_def enrich_def try_percentage_def fallback_def new_person_def parses_def
  sum_percentage_float_def

lemma enrich_zero_total:
  "enrich 0 D item = (if get_value item = None then item else fallback D item)"
  by (auto simp: enrich_def try_percentage_def split: option.splits)

text \<open>
  Claim C7, as amended. The aggregator returns the empty list for the empty list. When
  the total is zero, every record whose \<open>value\<close> is a non-empty string gets the zero
  fields of the \<open>except\<close> branch (\<open>percentage\<close> \<open>0,000000\<close>, \<open>percentage_float\<close> 0 and, with
  a distribution amount, \<open>total\<close> \<open>0,00\<close> and \<open>total_float\<close> 0; without one, \<open>total\<close> and
  \<open>total_float\<close> stay as they were), and every record with no \<open>value\<close> or an empty one
  is returned unchanged. No exception leaves the function: both \<open>ValueError\<close> and
  \<open>ZeroDivisionError\<close> end in the \<open>except\<close> branch.
\<close>

theorem degenerate_aggregate:
  "calculate_percentages_and_distribution [] D = []
   \<and> (calculate_total_value data = 0 \<longrightarrow>
        calculate_percentages_and_distribution data D
        = map (\<lambda>item. if get_value item = None then item else fallback D item) data)
   \<and> percentage (fallback D item) = Some ''0,000000''
   \<and> percentage_float (fallback D item) = Some 0
   \<and> total (fallback (Some amount) item) = Some ''0,00''
   \<and> total_float (fallback (Some amount) item) = Some 0
   \<and> total (fallback None item) = total item
   \<and> total_float (fallback None item) = total_float item"
  by (cases D) (simp_all add: calculate_percentages_and_distribution_def enrich_zero_total
      fallback_def Let_def)

theorem degenerate_aggregate_witness:
  "calculate_total_value [new_person ''A B'' ''111111'' ''C'' ''0,00'', new_person ''D E'' ''222222'' ''F'' ''abc''] = 0
   \<and> calculate_percentages_and_distribution
        [new_person ''A B'' ''111111'' ''C'' ''0,00'', new_person ''D E'' ''222222'' ''F'' ''abc''] (Some 1000)
     = [\<lparr>name = ''A B'', code = ''111111'', role = ''C'', value = Some ''0,00'',
         percentage = Some ''0,000000'', percentage_float = Some 0,
         total = Some ''0,00'', total_float = Some 0\<rparr>,
        \<lparr>name = ''D E'', code = ''222222'', role = ''F'', value = Some ''abc'',
         percentage = Some ''0,000000'', percentage_float = Some 0,
         total = Some ''0,00'', total_float = Some 0\<rparr>]"
proof -
  let ?w = "[new_person ''A B'' ''111111'' ''C'' ''0,00'', new_person ''D E'' ''222222'' ''F'' ''abc'']"
  have h: "calculate_total_value ?w = 0"
    by (simp add: calculate_total_value_def add_value_def get_value_def new_person_def float_eval)
  from degenerate_aggregate [of "Some 1000" ?w] h
  have "calculate_percentages_and_distribution ?w (Some 1000)
        = map (\<lambda>item. if get_value item = None then item else fallback (Some 1000) item) ?w"
    by blast
  then show ?thesis using h
    by (simp add: get_value_def new_person_def fallback_def)
qed

text \<open>
  Claim C7 as stated fails: a record whose \<open>value\<close> is the empty string is skipped by
  \<open>if item.get('value')\<close> in both loops. The total is zero and the record comes back with
  neither \<open>percentage\<close> nor \<open>total\<close>.
\<close>

theorem degenerate_aggregate_counterexample:
  "calculate_total_value [new_person ''A B'' ''111111'' ''C'' []] = 0
   \<and> map percentage (calculate_percentages_and_distribution
         [new_person ''A B'' ''111111'' ''C'' []] (Some 1000)) = [None]
   \<and> map total (calculate_percentages_and_distribution
         [new_person ''A B'' ''111111'' ''C'' []] (Some 1000)) = [None]"
  by (simp add: aggregate_eval)

section \<open>The two header filters\<close>

lemma str_in_iff: "str_in h s \<longleftrightarrow> (\<exists>p q. s = p @ h @ q)"
proof (induction s)
  case Nil
  then show ?case by auto
next
  case (Cons c cs)
  show ?case
  proof
    assume "str_in h (c # cs)"
    then consider "prefix h (c # cs)" | "str_in h cs" by auto
    then show "\<exists>p q. c # cs = p @ h @ q"
    proof cases
      case 1
      then obtain q where "c # cs = h @ q" by (auto simp: prefix_def)
      then have "c # cs = [] @ h @ q" by simp
      then show ?thesis by blast
    next
      case 2
      with Cons.IH obtain p q where "cs = p @ h @ q" by blast
      then have "c # cs = (c # p) @ h @ q" by simp
      then show ?thesis by blast
    qed
  next
    assume "\<exists>p q. c # cs = p @ h @ q"
    then obtain p q where pq: "c # cs = p @ h @ q" by blast
    show "str_in h (c # cs)"
    proof (cases p)
      case Nil
      with pq have "prefix h (c # cs)" by (simp add: prefix_def)
      then show ?thesis by simp
    next
      case (Cons a p')
      with pq have "cs = p' @ h @ q" by simp
      with Cons.IH have "str_in h cs" by blast
      then show ?thesis by simp
    qed
  qed
qed

lemma str_in_part: "str_in (a @ b) s \<Longrightarrow> str_in a s"
proof -
  assume "str_in (a @ b) s"
  then obtain p q where "s = p @ (a @ b) @ q" unfolding str_in_iff by blast
  then have "s = p @ a @ (b @ q)" by simp
  then show ?thesis unfolding str_in_iff by blast
qed

lemma dropWhile_keeps:
  assumes "h \<noteq> []" "\<not> P (hd h)"
  shows "\<exists>p'. dropWhile P (p @ h @ q) = p' @ h @ q"
proof (induction p)
  case Nil
  from assms have "dropWhile P (h @ q) = h @ q" by (cases h) auto
  then have "dropWhile P ([] @ h @ q) = [] @ h @ q" by simp
  then show ?case by blast
next
  case (Cons a p)
  then obtain p' where p': "dropWhile P (p @ h @ q) = p' @ h @ q" by blast
  show ?case
  proof (cases "P a")
    case True
    with p' show ?thesis by auto
  next
    case False
    then have "dropWhile P ((a # p) @ h @ q) = (a # p) @ h @ q" by simp
    then show ?thesis by blast
  qed
qed

lemma str_in_strip:
  assumes "str_in h s" "h \<noteq> []" "\<not> isspace (hd h)" "\<not> isspace (last h)"
  shows "str_in h (strip s)"
proof -
  from assms(1) obtain p q where "s = p @ h @ q" unfolding str_in_iff by blast
  with dropWhile_keeps [where P = isspace and h = h and p = p and q = q] assms(2,3) obtain p'
    where 1: "dropWhile isspace s = p' @ h @ q" by auto
  have rh: "rev h \<noteq> []" "\<not> isspace (hd (rev h))"
    using assms(2,4) by (simp_all add: hd_rev)
  from 1 have "rev (dropWhile isspace s) = rev q @ rev h @ rev p'" by simp
  with dropWhile_keeps [where P = isspace and h = "rev h" and p = "rev q" and q = "rev p'"] rh
  obtain q'
    where "dropWhile isspace (rev (dropWhile isspace s)) = q' @ rev h @ rev p'" by auto
  then have "strip s = p' @ h @ rev q'" by (simp add: strip_def)
  then show ?thesis unfolding str_in_iff by blast
qed

lemma headers_clean_extract:
  "h \<in> set headers_clean \<Longrightarrow> \<exists>g \<in> set headers_extract. \<exists>r. h = g @ r"
  by (auto simp: headers_clean_def headers_extract_def)

lemma headers_extract_ends:
  "g \<in> set headers_extract \<Longrightarrow> g \<noteq> [] \<and> \<not> isspace (hd g) \<and> \<not> isspace (last g)"
  by (auto simp: headers_extract_def isspace_def)

text \<open>
  Claim C9, as amended. Every line that the header test of \<open>clean_text\<close> drops is
  dropped by the header test of \<open>extract_data_from_txt\<close> as well, on the line itself and
  on the stripped line the extractor tests. Each phrase of the first list starts with a
  phrase of the second, and no phrase starts or ends with whitespace. The converse does
  not hold: see the counterexample below.
\<close>

theorem header_filters_related:
  "is_header_clean line \<Longrightarrow> is_header_extract line \<and> is_header_extract (strip line)"
proof -
  assume "is_header_clean line"
  then obtain h where h: "h \<in> set headers_clean" "str_in h line"
    by (auto simp: is_header_clean_def list_ex_iff)
  from headers_clean_extract [OF h(1)] obtain g r
    where g: "g \<in> set headers_extract" "h = g @ r" by blast
  from h(2) g(2) have 1: "str_in g line" using str_in_part by blast
  from headers_extract_ends [OF g(1)] 1 have 2: "str_in g (strip line)"
    using str_in_strip by blast
  from g(1) 1 2 show ?thesis
    by (auto simp: is_header_extract_def list_ex_iff)
qed

theorem header_filters_related_witness:
  "is_header_clean ''  COOPERATIVA DE TRABALHO '' \<and> is_header_extract ''  COOPERATIVA DE TRABALHO ''
   \<and> is_header_extract (strip ''  COOPERATIVA DE TRABALHO '')"
proof -
  have h: "is_header_clean ''  COOPERATIVA DE TRABALHO ''"
    by (simp add: is_header_clean_def headers_clean_def)
  from header_filters_related [OF h] h show ?thesis by blast
qed

text \<open>
  Claim C9 as stated fails: the two lists differ in their first phrase. The extractor
  drops a line that contains \<open>Rela\<^verbatim>\<open>..\<close>o\<close> (the word alone); the classifier asks for the
  two words \<open>Rela\<^verbatim>\<open>..\<close>o Anual\<close>.
\<close>

theorem header_filters_counterexample:
  "is_header_clean (''Rela'' @ [CHR 0xE7, CHR 0xE3] @ ''o Mensal'')
   \<noteq> is_header_extract (''Rela'' @ [CHR 0xE7, CHR 0xE3] @ ''o Mensal'')"
  by (simp add: is_header_clean_def headers_clean_def is_header_extract_def headers_extract_def)

section \<open>Properties of the locale formatter\<close>

lemma digit_char_not_dot: "digit_char k \<noteq> CHR ''.''"
proof -
  have "digit_char k \<in> set ''0123456789''"
    unfolding digit_char_def by (intro nth_mem) simp
  then show ?thesis by auto
qed

lemma str_nat_no_dot: "CHR ''.'' \<notin> set (str_nat n)"
proof (induction n rule: str_nat.induct)
  case (1 n)
  show ?case
  proof (cases "n < 10")
    case True
    then show ?thesis
      using digit_char_not_dot [of n] by (auto simp: str_nat.simps [of n])
  next
    case False
    with 1 have "CHR ''.'' \<notin> set (str_nat (n div 10))" by simp
    moreover have "digit_char (n mod 10) \<noteq> CHR ''.''" by (simp add: digit_char_not_dot)
    ultimately show ?thesis using False by (auto simp: str_nat.simps [of n])
  qed
qed

lemma zfill_no_dot: "CHR ''.'' \<notin> set s \<Longrightarrow> CHR ''.'' \<notin> set (zfill d s)"
  by (auto simp: zfill_def)

lemma zfill_nonempty: "0 < d \<Longrightarrow> zfill d s \<noteq> []"
  by (cases s) (auto simp: zfill_def)

lemma split_on_two:
  "sep \<notin> set a \<Longrightarrow> sep \<notin> set b \<Longrightarrow> split_on sep (a @ sep # b) = [a, b]"
  by (simp add: split_on_append_line split_on_line)

lemma group_loop_acc: "group_loop i cs r = group_loop i cs [] @ r"
proof (induction cs arbitrary: i r)
  case Nil
  then show ?case by simp
next
  case (Cons c cs)
  let ?d = "if 0 < i \<and> i mod 3 = 0 then [CHR ''.''] else []"
  have "group_loop i (c # cs) r = group_loop (Suc i) cs (c # ?d @ r)" by simp
  also have "\<dots> = group_loop (Suc i) cs [] @ c # ?d @ r" by (rule Cons.IH)
  also have "\<dots> = (group_loop (Suc i) cs [] @ c # ?d) @ r" by simp
  also have "group_loop (Suc i) cs [] @ c # ?d = group_loop (Suc i) cs (c # ?d)"
    by (rule Cons.IH [symmetric])
  also have "\<dots> = group_loop i (c # cs) []" by simp
  finally show ?case .
qed

lemma group_loop_index:
  "0 < i \<Longrightarrow> 0 < j \<Longrightarrow> i mod 3 = j mod 3 \<Longrightarrow> group_loop i cs r = group_loop j cs r"
proof (induction cs arbitrary: i j r)
  case Nil
  then show ?case by simp
next
  case (Cons c cs)
  let ?r = "c # (if 0 < i \<and> i mod 3 = 0 then CHR ''.'' # r else r)"
  have m: "Suc i mod 3 = Suc j mod 3"
    using Cons.prems(3) by (metis mod_Suc_eq)
  have same: "(0 < j \<and> j mod 3 = 0) = (0 < i \<and> i mod 3 = 0)"
    using Cons.prems by simp
  have "group_loop i (c # cs) r = group_loop (Suc i) cs ?r" by simp
  also have "\<dots> = group_loop (Suc j) cs ?r"
    by (rule Cons.IH) (simp_all add: m)
  also have "\<dots> = group_loop j (c # cs) r"
    unfolding group_loop.simps same ..
  finally show ?case .
qed

lemma group_loop_below:
  "i + length cs \<le> 3 \<Longrightarrow> group_loop i cs r = rev cs @ r"
proof (induction cs arbitrary: i r)
  case Nil
  then show ?case by simp
next
  case (Cons c cs)
  then have i: "i < 3" by simp
  then have "(0 < i \<and> i mod 3 = 0) = False" by auto
  then have "group_loop i (c # cs) r = group_loop (Suc i) cs (c # r)"
    by auto
  also have "\<dots> = rev cs @ c # r"
    by (rule Cons.IH) (use Cons.prems in simp)
  finally show ?case by simp
qed

lemma group_loop_short: "length cs \<le> 3 \<Longrightarrow> group_loop 0 cs [] = rev cs"
  using group_loop_below [of 0 cs "[]"] by simp

lemma group_loop_append:
  "group_loop i (as @ bs) r = group_loop (i + length as) bs (group_loop i as r)"
  by (induction as arbitrary: i r) simp_all

lemma group_loop_at_three:
  "group_loop 3 (c # cs) r = group_loop 0 (c # cs) (CHR ''.'' # r)"
proof -
  have "group_loop 3 (c # cs) r = group_loop (Suc 3) cs (c # CHR ''.'' # r)"
    by simp
  also have "\<dots> = group_loop (Suc 0) cs (c # CHR ''.'' # r)"
    by (rule group_loop_index) simp_all
  also have "\<dots> = group_loop 0 (c # cs) (CHR ''.'' # r)"
    by simp
  finally show ?thesis .
qed

lemma group_loop_three:
  assumes "cs \<noteq> []"
  shows "group_loop 0 (z # y # x # cs) [] = group_loop 0 cs [] @ CHR ''.'' # [x, y, z]"
proof -
  obtain c cs' where cs: "cs = c # cs'" using assms by (cases cs) auto
  have a: "group_loop 0 ([z, y, x] @ cs) []
           = group_loop (0 + length [z, y, x]) cs (group_loop 0 [z, y, x] [])"
    by (rule group_loop_append)
  have b: "group_loop 0 [z, y, x] [] = [x, y, z]"
    using group_loop_short [of "[z, y, x]"] by simp
  have c: "0 + length [z, y, x] = (3::nat)" by simp
  have "group_loop 0 ([z, y, x] @ cs) [] = group_loop 3 cs [x, y, z]"
    using a unfolding b c .
  then have "group_loop 0 (z # y # x # cs) [] = group_loop 3 cs [x, y, z]"
    by (simp del: group_loop.simps)
  also have "\<dots> = group_loop 0 cs (CHR ''.'' # [x, y, z])"
    unfolding cs by (rule group_loop_at_three)
  also have "\<dots> = group_loop 0 cs [] @ CHR ''.'' # [x, y, z]"
    by (rule group_loop_acc)
  finally show ?thesis .
qed

lemma length3E: "length xs = 3 \<Longrightarrow> \<exists>x y z. xs = [x, y, z]"
  by (auto simp: numeral_3_eq_3 length_Suc_conv)

lemma chunks3_nonempty: "chunks3 s \<noteq> []"
  by (subst chunks3.simps) simp

lemma join_with_snoc: "xs \<noteq> [] \<Longrightarrow> join_with sep (xs @ [y]) = join_with sep xs @ sep # y"
  by (induction sep xs rule: join_with.induct) auto

lemma grouped_short: "length s \<le> 3 \<Longrightarrow> grouped s = s"
  by (simp add: grouped_def chunks3.simps [of s])

lemma grouped_long:
  "3 < length s \<Longrightarrow> grouped s = grouped (take (length s - 3) s) @ CHR ''.'' # drop (length s - 3) s"
  by (simp add: grouped_def chunks3.simps [of s] join_with_snoc chunks3_nonempty)

lemma group_loop_grouped: "group_loop 0 (rev s) [] = grouped s"
proof (induction s rule: chunks3.induct)
  case (1 s)
  show ?case
  proof (cases "length s \<le> 3")
    case True
    then show ?thesis by (simp add: group_loop_short grouped_short)
  next
    case False
    let ?a = "take (length s - 3) s" and ?b = "drop (length s - 3) s"
    from False have lb: "length ?b = 3" by simp
    from length3E [OF lb] obtain x y z where b: "?b = [x, y, z]" by blast
    have s: "s = ?a @ [x, y, z]" using b by (metis append_take_drop_id)
    have a: "?a \<noteq> []" using False by auto
    have "group_loop 0 (rev s) [] = group_loop 0 (z # y # x # rev ?a) []"
      by (subst s) simp
    also have "\<dots> = group_loop 0 (rev ?a) [] @ CHR ''.'' # [x, y, z]"
      by (rule group_loop_three) (use False in auto)
    also have "\<dots> = grouped ?a @ CHR ''.'' # ?b"
      using 1 False b by simp
    also have "\<dots> = grouped s" using False by (simp add: grouped_long)
    finally show ?thesis .
  qed
qed

lemma chunks3_concat: "concat (chunks3 s) = s"
proof (induction s rule: chunks3.induct)
  case (1 s)
  show ?case
  proof (cases "length s \<le> 3")
    case True
    then show ?thesis by (simp add: chunks3.simps [of s])
  next
    case False
    with 1 show ?thesis by (simp add: chunks3.simps [of s])
  qed
qed

lemma chunks3_tail: "c \<in> set (tl (chunks3 s)) \<Longrightarrow> length c = 3"
proof (induction s rule: chunks3.induct)
  case (1 s)
  show ?case
  proof (cases "length s \<le> 3")
    case True
    with 1 show ?thesis by (simp add: chunks3.simps [of s])
  next
    case False
    with "1.prems" have "c \<in> set (tl (chunks3 (take (length s - 3) s))) \<or> c = drop (length s - 3) s"
      by (auto simp: chunks3.simps [of s] chunks3_nonempty)
    with 1 False show ?thesis by auto
  qed
qed

lemma chunks3_head: "s \<noteq> [] \<Longrightarrow> 1 \<le> length (hd (chunks3 s)) \<and> length (hd (chunks3 s)) \<le> 3"
proof (induction s rule: chunks3.induct)
  case (1 s)
  show ?case
  proof (cases "length s \<le> 3")
    case True
    with "1.prems" show ?thesis by (simp add: chunks3.simps [of s] Suc_le_eq)
  next
    case False
    then have "take (length s - 3) s \<noteq> []" by auto
    with 1 False show ?thesis by (simp add: chunks3.simps [of s] chunks3_nonempty)
  qed
qed

lemma format_fixed_nonneg:
  "0 \<le> number \<Longrightarrow> format_fixed number d =
     str_nat (scaled number d div 10 ^ d) @
     (if d = 0 then [] else CHR ''.'' # zfill d (str_nat (scaled number d mod 10 ^ d)))"
  by (simp add: format_fixed_def Let_def)

lemma format_brazilian_number_nonneg:
  assumes "0 \<le> number"
  shows "format_brazilian_number number d =
     grouped (str_nat (scaled number d div 10 ^ d)) @
     (if d = 0 then [] else CHR '','' # zfill d (str_nat (scaled number d mod 10 ^ d)))"
proof (cases "d = 0")
  case True
  then show ?thesis
    using assms
    by (simp add: format_brazilian_number_def format_fixed_nonneg split_on_line str_nat_no_dot
        group_loop_grouped grouped_short Let_def)
next
  case False
  let ?a = "str_nat (scaled number d div 10 ^ d)"
  let ?b = "zfill d (str_nat (scaled number d mod 10 ^ d))"
  have "split_on CHR ''.'' (format_fixed number d) = [?a, ?b]"
    using assms False
    by (simp add: format_fixed_nonneg split_on_two str_nat_no_dot zfill_no_dot)
  then show ?thesis
    using False
    by (simp add: format_brazilian_number_def zfill_nonempty group_loop_grouped grouped_short Let_def)
qed

lemma round_half_even_frac:
  assumes "0 < b"
  shows "round_half_even (of_int a / of_int b) =
     (let f = a div b; r = a mod b in
      if 2 * r < b then f else if b < 2 * r then f + 1 else if even f then f else f + 1)"
proof -
  have fl: "\<lfloor>(of_int a / of_int b :: rat)\<rfloor> = a div b"
    by (rule floor_divide_of_int_eq)
  have "(of_int a :: rat) = of_int (b * (a div b) + a mod b)" by simp
  then have "(of_int a :: rat) = of_int b * of_int (a div b) + of_int (a mod b)"
    by (simp only: of_int_add of_int_mult)
  then have fr: "(of_int a / of_int b :: rat) - of_int (a div b) = of_int (a mod b) / of_int b"
    using assms by (simp add: field_simps)
  have lt: "(of_int (a mod b) / of_int b < (1 / 2 :: rat)) = (2 * (a mod b) < b)"
  proof -
    have "(of_int (a mod b) / of_int b < (1 / 2 :: rat)) = ((of_int (2 * (a mod b)) :: rat) < of_int b)"
      using assms by (simp add: field_simps)
    then show ?thesis by (simp only: of_int_less_iff)
  qed
  have gt: "((1 / 2 :: rat) < of_int (a mod b) / of_int b) = (b < 2 * (a mod b))"
  proof -
    have "((1 / 2 :: rat) < of_int (a mod b) / of_int b) = ((of_int b :: rat) < of_int (2 * (a mod b)))"
      using assms by (simp add: field_simps)
    then show ?thesis by (simp only: of_int_less_iff)
  qed
  show ?thesis
    unfolding round_half_even_def Let_def fl fr lt gt ..
qed

lemma str_nat_nonempty: "str_nat n \<noteq> []"
  by (subst str_nat.simps) simp

lemma scaled_first: "scaled (2469135 / 2) 2 = 123456750"
  by (simp add: scaled_def round_half_even_def)

lemma scaled_zero: "scaled 0 6 = 0"
  by (simp add: scaled_def round_half_even_def)

lemma format_first: "format_brazilian_number (2469135 / 2) 2 = ''1.234.567,50''"
proof -
  have "(123456750::nat) div 10 ^ 2 = 1234567" "(123456750::nat) mod 10 ^ 2 = 50" by simp_all
  moreover have "str_nat 1234567 = ''1234567''" "str_nat 50 = ''50''"
    by (simp_all add: str_nat.simps digit_char_def)
  moreover have "grouped ''1234567'' = ''1.234.567''"
    by (simp add: grouped_def chunks3.simps)
  moreover have "zfill 2 ''50'' = ''50''" by (simp add: zfill_def)
  ultimately show ?thesis
    by (simp only: format_brazilian_number_nonneg scaled_first) simp
qed

lemma format_zero: "format_brazilian_number 0 6 = ''0,000000''"
proof -
  have "(0::nat) div 10 ^ 6 = 0" "(0::nat) mod 10 ^ 6 = 0" by simp_all
  moreover have "str_nat 0 = ''0''" by (simp add: str_nat.simps digit_char_def)
  moreover have "grouped ''0'' = ''0''" by (simp add: grouped_def chunks3.simps)
  moreover have "zfill 6 ''0'' = ''000000''" by (simp add: zfill_def eval_nat_numeral)
  ultimately show ?thesis
    by (simp only: format_brazilian_number_nonneg scaled_zero) simp
qed

lemma round_half_even_near:
  "\<bar>of_int (round_half_even x) - x\<bar> \<le> 1 / 2
   \<and> (\<bar>of_int (round_half_even x) - x\<bar> = 1 / 2 \<longrightarrow> even (round_half_even x))"
proof -
  let ?f = "\<lfloor>x\<rfloor>"
  let ?r = "x - of_int ?f"
  have r0: "0 \<le> ?r" and r1: "?r < 1" by linarith+
  consider "?r < 1 / 2" | "1 / 2 < ?r" | "?r = 1 / 2" "even ?f" | "?r = 1 / 2" "odd ?f"
    by fastforce
  then show ?thesis
  proof cases
    case 1
    then have "round_half_even x = ?f" by (simp add: round_half_even_def Let_def)
    with 1 r0 show ?thesis by simp
  next
    case 2
    then have e: "round_half_even x = ?f + 1" by (simp add: round_half_even_def Let_def)
    have "\<bar>of_int (?f + 1) - x\<bar> = 1 - ?r" using r1 by simp
    with 2 e show ?thesis by simp
  next
    case 3
    then have "round_half_even x = ?f" by (simp add: round_half_even_def Let_def)
    with 3 show ?thesis by simp
  next
    case 4
    then have e: "round_half_even x = ?f + 1" by (simp add: round_half_even_def Let_def)
    have "\<bar>of_int (?f + 1) - x\<bar> = 1 - ?r" using r1 by simp
    with 4 e show ?thesis by simp
  qed
qed

lemma round_half_even_nonneg: "0 \<le> x \<Longrightarrow> 0 \<le> round_half_even x"
proof -
  assume "0 \<le> x"
  then have "0 \<le> \<lfloor>x\<rfloor>" by simp
  then show ?thesis by (auto simp: round_half_even_def Let_def)
qed

lemma scaled_near:
  assumes "0 \<le> number"
  shows "\<bar>of_nat (scaled number d) - number * 10 ^ d\<bar> \<le> 1 / 2
   \<and> (\<bar>of_nat (scaled number d) - number * 10 ^ d\<bar> = 1 / 2 \<longrightarrow> even (scaled number d))"
proof -
  let ?y = "number * 10 ^ d"
  have y: "0 \<le> ?y" using assms by simp
  have a: "\<bar>number\<bar> * 10 ^ d = ?y" using assms by simp
  from round_half_even_nonneg [OF y]
  have m: "(of_nat (scaled number d) :: rat) = of_int (round_half_even ?y)"
    and ev: "even (scaled number d) = even (round_half_even ?y)"
    unfolding scaled_def a by (simp_all add: even_nat_iff)
  show ?thesis unfolding m ev by (rule round_half_even_near)
qed

lemma digit_char_value:
  assumes "k < 10"
  shows "(of_char (digit_char k) :: nat) = 48 + k" and "isdigit (digit_char k)"
proof -
  from assms have "k \<in> {0, 1, 2, 3, 4, 5, 6, 7, 8, 9}" by auto
  then show "(of_char (digit_char k) :: nat) = 48 + k"
    by (auto simp: digit_char_def)
  then show "isdigit (digit_char k)"
    using assms by (simp add: isdigit_def)
qed

lemma nat_of_digits_snoc:
  "nat_of_digits (xs @ [c]) = 10 * nat_of_digits xs + (of_char c - 48)"
  by (simp add: nat_of_digits_def)

lemma str_nat_digits: "list_all isdigit (str_nat n)"
proof (induction n rule: str_nat.induct)
  case (1 n)
  show ?case
  proof (cases "n < 10")
    case True
    then show ?thesis by (simp add: str_nat.simps [of n] digit_char_value)
  next
    case False
    with 1 have "list_all isdigit (str_nat (n div 10))" by simp
    moreover have "isdigit (digit_char (n mod 10))" by (simp add: digit_char_value)
    ultimately show ?thesis using False by (simp add: str_nat.simps [of n])
  qed
qed

lemma str_nat_value: "nat_of_digits (str_nat n) = n"
proof (induction n rule: str_nat.induct)
  case (1 n)
  show ?case
  proof (cases "n < 10")
    case True
    then show ?thesis
      by (simp add: str_nat.simps [of n] nat_of_digits_def digit_char_value)
  next
    case False
    with 1 have "nat_of_digits (str_nat (n div 10)) = n div 10" by simp
    moreover have "(of_char (digit_char (n mod 10)) :: nat) - 48 = n mod 10"
      by (simp add: digit_char_value)
    ultimately show ?thesis using False
      by (simp add: str_nat.simps [of n] nat_of_digits_snoc)
  qed
qed

lemma str_nat_single: "n < 10 \<Longrightarrow> length (str_nat n) = 1"
  by (simp add: str_nat.simps [of n])

lemma str_nat_leading: "0 < n \<Longrightarrow> hd (str_nat n) \<noteq> CHR ''0''"
proof (induction n rule: str_nat.induct)
  case (1 n)
  show ?case
  proof (cases "n < 10")
    case True
    have "(of_char (digit_char n) :: nat) = 48 + n" using True by (rule digit_char_value)
    with "1.prems" have "(of_char (digit_char n) :: nat) \<noteq> of_char CHR ''0''" by simp
    then have "digit_char n \<noteq> CHR ''0''" by auto
    with True show ?thesis by (simp add: str_nat.simps [of n])
  next
    case False
    then have "0 < n div 10" by simp
    with 1 False have "hd (str_nat (n div 10)) \<noteq> CHR ''0''" by simp
    with False show ?thesis
      by (simp add: str_nat.simps [of n] str_nat_nonempty)
  qed
qed

lemma str_nat_length: "0 < d \<Longrightarrow> n < 10 ^ d \<Longrightarrow> length (str_nat n) \<le> d"
proof (induction n arbitrary: d rule: str_nat.induct)
  case (1 n)
  show ?case
  proof (cases "n < 10")
    case True
    with "1.prems" show ?thesis by (simp add: str_nat.simps [of n] Suc_le_eq)
  next
    case False
    with "1.prems" have "1 < d"
      by (metis One_nat_def Suc_lessI power_one_right)
    then obtain e where d: "d = Suc e" and e: "0 < e" by (cases d) auto
    from "1.prems"(2) have "n div 10 < 10 ^ e"
      unfolding d by (simp add: less_mult_imp_div_less mult.commute)
    with "1.IH" [OF False e] have "length (str_nat (n div 10)) \<le> e" .
    with False show ?thesis by (simp add: str_nat.simps [of n] d)
  qed
qed

lemma zfill_length: "length s \<le> d \<Longrightarrow> length (zfill d s) = d"
  by (simp add: zfill_def)

lemma zfill_digits: "list_all isdigit s \<Longrightarrow> list_all isdigit (zfill d s)"
proof -
  have "isdigit CHR ''0''" by (simp add: isdigit_def)
  then show "list_all isdigit s \<Longrightarrow> list_all isdigit (zfill d s)"
    by (auto simp: zfill_def list_all_iff)
qed

lemma nat_of_digits_zeros: "nat_of_digits (replicate k CHR ''0'' @ s) = nat_of_digits s"
proof (induction k)
  case 0
  then show ?case by simp
next
  case (Suc k)
  have "nat_of_digits (replicate (Suc k) CHR ''0'' @ s)
        = foldl (\<lambda>acc c. 10 * acc + (of_char c - 48)) (10 * 0 + (of_char CHR ''0'' - 48))
            (replicate k CHR ''0'' @ s)"
    by (simp add: nat_of_digits_def)
  also have "\<dots> = nat_of_digits (replicate k CHR ''0'' @ s)"
    by (simp add: nat_of_digits_def)
  finally show ?case using Suc by simp
qed

lemma zfill_value: "nat_of_digits (zfill d s) = nat_of_digits s"
  by (simp add: zfill_def nat_of_digits_zeros)

lemma scaled_rounds: "0 \<le> number \<Longrightarrow> rounds_to (scaled number d) (number * 10 ^ d)"
  unfolding rounds_to_def by (rule scaled_near)

lemma str_nat_decimal: "decimal (str_nat n) n"
proof -
  have "length (str_nat n) = 1 \<or> hd (str_nat n) \<noteq> CHR ''0''"
  proof (cases "n < 10")
    case True
    then show ?thesis by (simp add: str_nat_single)
  next
    case False
    then have "0 < n" by simp
    then show ?thesis by (simp add: str_nat_leading)
  qed
  then show ?thesis
    by (simp add: decimal_def str_nat_nonempty str_nat_digits str_nat_value)
qed

lemma fraction_digits:
  assumes "0 < d"
  shows "list_all isdigit (zfill d (str_nat (m mod 10 ^ d)))"
    and "length (zfill d (str_nat (m mod 10 ^ d))) = d"
    and "nat_of_digits (zfill d (str_nat (m mod 10 ^ d))) = m mod 10 ^ d"
proof -
  show "list_all isdigit (zfill d (str_nat (m mod 10 ^ d)))"
    by (rule zfill_digits) (rule str_nat_digits)
  have "m mod 10 ^ d < 10 ^ d" by simp
  with assms have "length (str_nat (m mod 10 ^ d)) \<le> d" by (rule str_nat_length)
  then show "length (zfill d (str_nat (m mod 10 ^ d))) = d" by (rule zfill_length)
  show "nat_of_digits (zfill d (str_nat (m mod 10 ^ d))) = m mod 10 ^ d"
    by (simp add: zfill_value str_nat_value)
qed

text \<open>
  Claim C8, as amended. \<open>format_brazilian_number\<close> gives \<open>1.234.567,50\<close> for 1234567.5
  with two decimals and \<open>0,000000\<close> for 0 with six. For every non-negative number and
  every count \<open>d\<close> of decimals there are a natural number \<open>m\<close>, the number times
  \<open>10 ^ d\<close> rounded to the nearest integer with a tie going to the even one, the
  decimal numeral \<open>ip\<close> of \<open>m div 10 ^ d\<close> and the \<open>d\<close> digits \<open>fp\<close> of \<open>m mod 10 ^ d\<close>,
  such that the output is \<open>ip\<close> grouped, followed by a comma and \<open>fp\<close> when \<open>d\<close> is at
  least one, and \<open>ip\<close> grouped alone when \<open>d\<close> is zero. Grouped means: cut into
  clusters that are joined by \<open>.\<close>, give back the digits when concatenated, have three
  digits each except the first, which has one to three.
\<close>

theorem format_brazilian_number_grouped:
  "format_brazilian_number (2469135 / 2) 2 = ''1.234.567,50''
   \<and> format_brazilian_number 0 6 = ''0,000000''
   \<and> (0 \<le> number \<longrightarrow>
        (\<exists>m ip fp.
           rounds_to m (number * 10 ^ d)
           \<and> decimal ip (m div 10 ^ d)
           \<and> list_all isdigit fp \<and> length fp = d \<and> nat_of_digits fp = m mod 10 ^ d
           \<and> format_brazilian_number number d
               = grouped ip @ (if d = 0 then [] else CHR '','' # fp)
           \<and> grouped ip = join_with CHR ''.'' (chunks3 ip)
           \<and> concat (chunks3 ip) = ip
           \<and> (\<forall>c \<in> set (tl (chunks3 ip)). length c = 3)
           \<and> 1 \<le> length (hd (chunks3 ip)) \<and> length (hd (chunks3 ip)) \<le> 3))"
proof (intro conjI impI)
  show "format_brazilian_number (2469135 / 2) 2 = ''1.234.567,50''"
    by (rule format_first)
  show "format_brazilian_number 0 6 = ''0,000000''"
    by (rule format_zero)
next
  assume nn: "0 \<le> number"
  define m where "m = scaled number d"
  define ip where "ip = str_nat (m div 10 ^ d)"
  define fp where "fp = (if d = 0 then [] else zfill d (str_nat (m mod 10 ^ d)))"
  have 0: "rounds_to m (number * 10 ^ d)"
    unfolding m_def using nn by (rule scaled_rounds)
  have 1: "decimal ip (m div 10 ^ d)"
    unfolding ip_def by (rule str_nat_decimal)
  have 2: "list_all isdigit fp \<and> length fp = d \<and> nat_of_digits fp = m mod 10 ^ d"
  proof (cases "d = 0")
    case True
    then show ?thesis by (simp add: fp_def nat_of_digits_def)
  next
    case False
    then have "0 < d" by simp
    from fraction_digits [OF this, of m] False show ?thesis by (simp add: fp_def)
  qed
  have 3: "format_brazilian_number number d
           = grouped ip @ (if d = 0 then [] else CHR '','' # fp)"
    unfolding ip_def fp_def m_def using format_brazilian_number_nonneg [OF nn, of d] by simp
  have ne: "ip \<noteq> []" unfolding ip_def by (rule str_nat_nonempty)
  have 4: "grouped ip = join_with CHR ''.'' (chunks3 ip)" by (simp add: grouped_def)
  have 5: "concat (chunks3 ip) = ip" by (rule chunks3_concat)
  have 6: "\<forall>c \<in> set (tl (chunks3 ip)). length c = 3" using chunks3_tail by blast
  have 7: "1 \<le> length (hd (chunks3 ip)) \<and> length (hd (chunks3 ip)) \<le> 3"
    using ne by (rule chunks3_head)
  from 0 1 2 3 4 5 6 7
  show "\<exists>m ip fp.
           rounds_to m (number * 10 ^ d)
           \<and> decimal ip (m div 10 ^ d)
           \<and> list_all isdigit fp \<and> length fp = d \<and> nat_of_digits fp = m mod 10 ^ d
           \<and> format_brazilian_number number d
               = grouped ip @ (if d = 0 then [] else CHR '','' # fp)
           \<and> grouped ip = join_with CHR ''.'' (chunks3 ip)
           \<and> concat (chunks3 ip) = ip
           \<and> (\<forall>c \<in> set (tl (chunks3 ip)). length c = 3)
           \<and> 1 \<le> length (hd (chunks3 ip)) \<and> length (hd (chunks3 ip)) \<le> 3"
    by blast
qed

theorem format_brazilian_number_grouped_witness:
  "(0::rat) \<le> 9876543 / 8
   \<and> rounds_to 123456788 (9876543 / 8 * 10 ^ 2)
   \<and> \<bar>of_nat 123456788 - (9876543 / 8 * 10 ^ 2 :: rat)\<bar> = 1 / 2
   \<and> (\<exists>m ip fp.
           rounds_to m (9876543 / 8 * 10 ^ 2)
           \<and> decimal ip (m div 10 ^ 2)
           \<and> list_all isdigit fp \<and> length fp = 2 \<and> nat_of_digits fp = m mod 10 ^ 2
           \<and> format_brazilian_number (9876543 / 8) 2 = grouped ip @ CHR '','' # fp)
   \<and> format_brazilian_number (9876543 / 8) 2 = ''1.234.567,88''
   \<and> chunks3 ''1234567'' = [''1'', ''234'', ''567'']"
proof -
  have nn: "(0::rat) \<le> 9876543 / 8" by simp
  have tie: "\<bar>of_nat 123456788 - (9876543 / 8 * 10 ^ 2 :: rat)\<bar> = 1 / 2" by simp
  then have rt: "rounds_to 123456788 (9876543 / 8 * 10 ^ 2)"
    unfolding rounds_to_def by simp
  from format_brazilian_number_grouped [of "9876543 / 8" 2] nn
  have ex: "\<exists>m ip fp.
           rounds_to m (9876543 / 8 * 10 ^ 2)
           \<and> decimal ip (m div 10 ^ 2)
           \<and> list_all isdigit fp \<and> length fp = 2 \<and> nat_of_digits fp = m mod 10 ^ 2
           \<and> format_brazilian_number (9876543 / 8) 2 = grouped ip @ CHR '','' # fp"
    by auto
  have sc: "scaled (9876543 / 8) 2 = 123456788"
    using round_half_even_frac [of 2 246913575] by (simp add: scaled_def)
  have ar: "(123456788::nat) div 10 ^ 2 = 1234567" "(123456788::nat) mod 10 ^ 2 = 88" by simp_all
  have st: "str_nat 1234567 = ''1234567''" "str_nat 88 = ''88''"
    by (simp_all add: str_nat.simps digit_char_def)
  have ch: "chunks3 ''1234567'' = [''1'', ''234'', ''567'']" by (simp add: chunks3.simps)
  have zf: "zfill 2 ''88'' = ''88''" by (simp add: zfill_def)
  have out: "format_brazilian_number (9876543 / 8) 2 = ''1.234.567,88''"
    by (simp only: format_brazilian_number_nonneg [OF nn] sc ar st grouped_def ch zf) simp
  from nn rt tie ex out ch show ?thesis by blast
qed

text \<open>
  Claim C8 as stated fails for zero decimals: the formatted number has no point, the
  decimal part is empty, and \<open>if decimal_part\<close> returns the grouped integer part with no
  comma after it.
\<close>

theorem format_zero_decimals_counterexample:
  "format_brazilian_number 1234 0 = ''1.234''
   \<and> CHR '','' \<notin> set (format_brazilian_number 1234 0)"
proof -
  have sc: "scaled 1234 0 = 1234" by (simp add: scaled_def round_half_even_def)
  have st: "str_nat 1234 = ''1234''" by (simp add: str_nat.simps digit_char_def)
  have gr: "grouped ''1234'' = ''1.234''" by (simp add: grouped_def chunks3.simps)
  have "format_brazilian_number 1234 0 = ''1.234''"
    by (simp add: format_brazilian_number_nonneg sc st gr)
  then show ?thesis by simp
qed

section \<open>The pattern matcher\<close>

lemma takeWhile_length_iff:
  "j \<le> length (takeWhile P xs) \<longleftrightarrow> j \<le> length xs \<and> list_all P (take j xs)"
proof (induction xs arbitrary: j)
  case Nil
  then show ?case by simp
next
  case (Cons x xs)
  show ?case
  proof (cases j)
    case 0
    then show ?thesis by simp
  next
    case (Suc k)
    then show ?thesis using Cons.IH [of k] by auto
  qed
qed

lemma counts_iff:
  "j \<in> set (counts P lo hi g rest) \<longleftrightarrow>
     lo \<le> j \<and> j \<le> length rest \<and> list_all P (take j rest)
     \<and> (case hi of None \<Rightarrow> True | Some h \<Rightarrow> j \<le> h)"
proof -
  have "j \<in> set (counts P lo hi g rest) \<longleftrightarrow>
        lo \<le> j \<and> j \<le> length (takeWhile P rest)
        \<and> (case hi of None \<Rightarrow> True | Some h \<Rightarrow> j \<le> h)"
    by (cases hi) (auto simp: counts_def Let_def)
  then show ?thesis by (auto simp: takeWhile_length_iff)
qed

lemma run_Rep_iff:
  assumes i: "i \<le> length s"
  shows "m \<in> set (run (Rep P lo hi g # r) s i) \<longleftrightarrow>
     (\<exists>j. lo \<le> j \<and> i + j \<le> length s \<and> list_all P (slice s i (i + j))
          \<and> (case hi of None \<Rightarrow> True | Some h \<Rightarrow> j \<le> h)
          \<and> m \<in> set (run r s (i + j)))"
  (is "?L \<longleftrightarrow> ?R")
proof
  assume ?L
  then obtain j where j: "j \<in> set (counts P lo hi g (drop i s))" "m \<in> set (run r s (i + j))"
    by auto
  from j(1) have c: "lo \<le> j" "j \<le> length (drop i s)" "list_all P (take j (drop i s))"
    "case hi of None \<Rightarrow> True | Some h \<Rightarrow> j \<le> h"
    by (simp_all add: counts_iff)
  have "i + j \<le> length s" using i c(2) by simp
  with c j(2) show ?R by (auto simp: slice_def)
next
  assume ?R
  then obtain j where j: "lo \<le> j" "i + j \<le> length s" "list_all P (slice s i (i + j))"
    "case hi of None \<Rightarrow> True | Some h \<Rightarrow> j \<le> h" "m \<in> set (run r s (i + j))"
    by blast
  from j(2) have "j \<le> length (drop i s)" by simp
  with j have "j \<in> set (counts P lo hi g (drop i s))"
    by (simp add: counts_iff slice_def)
  with j(5) show ?L by auto
qed

lemma first_match_Some:
  "first_match p s starts = Some m \<Longrightarrow> \<exists>i \<in> set starts. m \<in> set (run p s i)"
  by (induction starts) (auto split: list.splits)

lemma run_RepD:
  assumes "i \<le> length s" "m \<in> set (run (Rep P lo hi g # r) s i)"
  shows "\<exists>j. lo \<le> j \<and> i + j \<le> length s \<and> list_all P (slice s i (i + j))
          \<and> (case hi of None \<Rightarrow> True | Some h \<Rightarrow> j \<le> h)
          \<and> m \<in> set (run r s (i + j))"
  using run_Rep_iff [OF assms(1)] assms(2) by blast

lemma run_RepI:
  assumes "lo \<le> j" "i + j \<le> length s" "list_all P (slice s i (i + j))"
    "case hi of None \<Rightarrow> True | Some h \<Rightarrow> j \<le> h" "m \<in> set (run r s (i + j))"
  shows "m \<in> set (run (Rep P lo hi g # r) s i)"
proof -
  from assms(2) have "i \<le> length s" by simp
  from run_Rep_iff [OF this] assms show ?thesis by blast
qed

lemma slice_last:
  "a < b \<Longrightarrow> b \<le> length s \<Longrightarrow> list_all P (slice s a b) \<Longrightarrow> P (s ! (b - 1))"
proof -
  assume ab: "a < b" "b \<le> length s" and all: "list_all P (slice s a b)"
  from ab have "b - a - 1 < length (slice s a b)" by (simp add: slice_def)
  with all have "P (slice s a b ! (b - a - 1))" by (simp add: list_all_length)
  moreover from ab have "slice s a b ! (b - a - 1) = s ! (b - 1)" by (simp add: slice_def)
  ultimately show ?thesis by simp
qed

lemma slice_first:
  "a < b \<Longrightarrow> b \<le> length s \<Longrightarrow> list_all P (slice s a b) \<Longrightarrow> P (s ! a)"
proof -
  assume ab: "a < b" "b \<le> length s" and all: "list_all P (slice s a b)"
  from ab have "0 < length (slice s a b)" by (simp add: slice_def)
  with all have "P (slice s a b ! 0)" by (simp add: list_all_length)
  moreover from ab have "slice s a b ! 0 = s ! a" by (simp add: slice_def)
  ultimately show ?thesis by simp
qed

lemma run_value_pattern:
  assumes "i \<le> length s" "m \<in> set (run value_pattern s i)"
  shows "\<exists>a j3 j5. m = [a, a + j3 + 1 + j5] \<and> i < a \<and> a + j3 + 1 + j5 \<le> length s
           \<and> isspace (s ! (a - 1))
           \<and> 1 \<le> j3 \<and> list_all digit_or_dot (slice s a (a + j3))
           \<and> s ! (a + j3) = CHR '',''
           \<and> 1 \<le> j5 \<and> list_all isdigit (slice s (a + j3 + 1) (a + j3 + 1 + j5))
           \<and> at_eol s (a + j3 + 1 + j5)"
proof -
  note defs = value_pattern_def star_def plus_def exactly_def
  from assms(2) have "m \<in> set (run (Rep dot 0 None True #
      [Rep isspace 1 None True, Open, Rep digit_or_dot 1 None True, Rep comma 1 (Some 1) True,
       Rep isdigit 1 None True, Close, Eol]) s i)"
    unfolding defs .
  from run_RepD [OF assms(1) this] obtain j1 where j1: "i + j1 \<le> length s"
    "m \<in> set (run (Rep isspace 1 None True #
      [Open, Rep digit_or_dot 1 None True, Rep comma 1 (Some 1) True,
       Rep isdigit 1 None True, Close, Eol]) s (i + j1))"
    by blast
  from run_RepD [OF j1] obtain j2 where j2: "1 \<le> j2" "i + j1 + j2 \<le> length s"
    "list_all isspace (slice s (i + j1) (i + j1 + j2))"
    "m \<in> set (run (Open # [Rep digit_or_dot 1 None True, Rep comma 1 (Some 1) True,
       Rep isdigit 1 None True, Close, Eol]) s (i + j1 + j2))"
    by blast
  define a where "a = i + j1 + j2"
  from j2(4) have "m \<in> set (map ((#) a) (run (Rep digit_or_dot 1 None True #
      [Rep comma 1 (Some 1) True, Rep isdigit 1 None True, Close, Eol]) s a))"
    unfolding a_def run.simps(2) .
  then obtain m1 where m1: "m = a # m1"
    "m1 \<in> set (run (Rep digit_or_dot 1 None True # [Rep comma 1 (Some 1) True,
       Rep isdigit 1 None True, Close, Eol]) s a)"
    by (auto simp del: run.simps)
  have al: "a \<le> length s" using j2(2) by (simp add: a_def)
  from run_RepD [OF al m1(2)] obtain j3 where j3: "1 \<le> j3" "a + j3 \<le> length s"
    "list_all digit_or_dot (slice s a (a + j3))"
    "m1 \<in> set (run (Rep comma 1 (Some 1) True # [Rep isdigit 1 None True, Close, Eol]) s (a + j3))"
    by blast
  from run_RepD [OF j3(2) j3(4)] obtain j4 where j4: "1 \<le> j4" "j4 \<le> 1" "a + j3 + j4 \<le> length s"
    "list_all comma (slice s (a + j3) (a + j3 + j4))"
    "m1 \<in> set (run (Rep isdigit 1 None True # [Close, Eol]) s (a + j3 + j4))"
    by (auto simp del: run.simps)
  then have j4': "j4 = 1" by simp
  from run_RepD [OF j4(3) j4(5)] obtain j5 where j5: "1 \<le> j5" "a + j3 + j4 + j5 \<le> length s"
    "list_all isdigit (slice s (a + j3 + j4) (a + j3 + j4 + j5))"
    "m1 \<in> set (run [Close, Eol] s (a + j3 + j4 + j5))"
    by blast
  from j5(4) have e: "m1 = [a + j3 + j4 + j5]" "at_eol s (a + j3 + j4 + j5)"
    by (auto split: if_splits)
  have sp: "isspace (s ! (a - 1))"
    using slice_last [of "i + j1" a s isspace] j2(1,2,3) by (simp add: a_def)
  have "comma (s ! (a + j3))"
    using slice_first [of "a + j3" "a + j3 + j4" s comma] j4 by simp
  then have cm: "s ! (a + j3) = CHR '',''" by (simp add: comma_def)
  have ia: "i < a" using j2(1) by (simp add: a_def)
  from m1(1) e j3(1,3) j5(1,2,3) sp cm ia show ?thesis
    unfolding j4' by blast
qed

section \<open>Locale numbers and the value pattern\<close>

lemma digit_or_dot_not_comma: "digit_or_dot c \<Longrightarrow> c \<noteq> CHR '',''"
  by (auto simp: digit_or_dot_def isdigit_def)

lemma digit_not_space: "isdigit c \<Longrightarrow> \<not> isspace c"
  by (auto simp: isdigit_def isspace_def Let_def)

lemma digit_or_dot_not_space: "digit_or_dot c \<Longrightarrow> \<not> isspace c"
  by (auto simp: digit_or_dot_def isdigit_def isspace_def Let_def)

lemma locale_numberI:
  assumes "A \<noteq> []" "list_all digit_or_dot A" "B \<noteq> []" "list_all isdigit B"
  shows "locale_number (A @ CHR '','' # B)"
proof -
  have "takeWhile (\<lambda>c. c \<noteq> CHR '','') (A @ CHR '','' # B) = A"
    using assms(2) by (simp add: takeWhile_append2 list_all_iff digit_or_dot_not_comma)
  with assms show ?thesis by (simp add: locale_number_def Let_def)
qed

lemma locale_numberD:
  assumes "locale_number tok"
  shows "\<exists>A B. tok = A @ CHR '','' # B \<and> A \<noteq> [] \<and> list_all digit_or_dot A
           \<and> B \<noteq> [] \<and> list_all isdigit B"
proof -
  let ?A = "takeWhile (\<lambda>c. c \<noteq> CHR '','') tok"
  let ?R = "dropWhile (\<lambda>c. c \<noteq> CHR '','') tok"
  let ?B = "drop (Suc (length ?A)) tok"
  from assms have p: "?A \<noteq> []" "list_all digit_or_dot ?A" "length ?A < length tok"
    "?B \<noteq> []" "list_all isdigit ?B"
    by (simp_all add: locale_number_def Let_def)
  have t: "tok = ?A @ ?R" by simp
  from p(3) have "?R \<noteq> []"
    by (metis t append_Nil2 less_irrefl)
  then obtain c R' where R: "?R = c # R'" by (cases ?R) auto
  then have "c = CHR '',''" using hd_dropWhile [of "\<lambda>c. c \<noteq> CHR '',''" tok] by auto
  with R t have t': "tok = ?A @ CHR '','' # R'" by simp
  then have "drop (Suc (length ?A)) tok = drop (Suc (length ?A)) (?A @ CHR '','' # R')" by simp
  then have "?B = R'" by simp
  with t' p show ?thesis by metis
qed

lemma locale_number_no_space: "locale_number tok \<Longrightarrow> c \<in> set tok \<Longrightarrow> \<not> isspace c"
proof -
  assume "locale_number tok" and c: "c \<in> set tok"
  from locale_numberD [OF this(1)] obtain A B where
    "tok = A @ CHR '','' # B" "list_all digit_or_dot A" "list_all isdigit B" by blast
  with c have "digit_or_dot c \<or> c = CHR '','' \<or> isdigit c"
    by (auto simp: list_all_iff)
  then show ?thesis
    using digit_or_dot_not_space digit_not_space by (auto simp: isspace_def)
qed

lemma locale_number_nonempty: "locale_number tok \<Longrightarrow> tok \<noteq> []"
  by (auto simp: locale_number_def Let_def)

lemma strip_id: "tok \<noteq> [] \<Longrightarrow> \<not> isspace (hd tok) \<Longrightarrow> \<not> isspace (last tok) \<Longrightarrow> strip tok = tok"
proof -
  assume ne: "tok \<noteq> []" and h: "\<not> isspace (hd tok)" and l: "\<not> isspace (last tok)"
  from ne h have 1: "dropWhile isspace tok = tok" by (cases tok) auto
  from ne l have "\<not> isspace (hd (rev tok))" by (simp add: hd_rev)
  with ne have "dropWhile isspace (rev tok) = rev tok" by (cases "rev tok") auto
  with 1 show ?thesis by (simp add: strip_def)
qed

lemma strip_locale_number: "locale_number tok \<Longrightarrow> strip tok = tok"
proof -
  assume ln: "locale_number tok"
  then have ne: "tok \<noteq> []" by (rule locale_number_nonempty)
  then have "hd tok \<in> set tok" "last tok \<in> set tok" by simp_all
  then show ?thesis using ne ln locale_number_no_space strip_id by blast
qed

lemma slice_length: "b \<le> length s \<Longrightarrow> length (slice s a b) = b - a"
  by (simp add: slice_def)

lemma slice_split:
  "a \<le> b \<Longrightarrow> b \<le> c \<Longrightarrow> slice s a c = slice s a b @ slice s b c"
proof -
  assume ab: "a \<le> b" and bc: "b \<le> c"
  have e: "c - a = (b - a) + (c - b)" using ab bc by simp
  have d: "drop (b - a) (drop a s) = drop b s" using ab by simp
  show ?thesis unfolding slice_def e take_add d ..
qed

lemma slice_single: "b < length s \<Longrightarrow> slice s b (Suc b) = [s ! b]"
  by (simp add: slice_def take_Suc_conv_app_nth Cons_nth_drop_Suc [symmetric])

lemma value_match_facts:
  assumes "value_match line = Some v"
  shows "\<exists>a b. 0 < a \<and> a \<le> b \<and> b \<le> length line \<and> isspace (line ! (a - 1))
           \<and> v = slice line a b \<and> locale_number v \<and> at_eol line b"
proof -
  from assms obtain m where m: "re_search value_pattern line = Some m"
    by (auto simp: value_match_def split: option.splits)
  then have "first_match value_pattern line [0 ..< Suc (length line)] = Some m"
    by (simp add: re_search_def)
  from first_match_Some [OF this] obtain i
    where i0: "i \<in> set [0 ..< Suc (length line)]" and i1: "m \<in> set (run value_pattern line i)"
    by blast
  from i0 have "i \<le> length line" by auto
  note i = this i1
  from run_value_pattern [OF i] obtain a j3 j5 where r:
    "m = [a, a + j3 + 1 + j5]" "i < a" "a + j3 + 1 + j5 \<le> length line"
    "isspace (line ! (a - 1))" "1 \<le> j3" "list_all digit_or_dot (slice line a (a + j3))"
    "line ! (a + j3) = CHR '',''" "1 \<le> j5"
    "list_all isdigit (slice line (a + j3 + 1) (a + j3 + 1 + j5))"
    "at_eol line (a + j3 + 1 + j5)"
    by blast
  let ?b = "a + j3 + 1 + j5"
  let ?A = "slice line a (a + j3)" and ?B = "slice line (a + j3 + 1) ?b"
  have "slice line a ?b = ?A @ slice line (a + j3) ?b"
    by (rule slice_split) simp_all
  also have "slice line (a + j3) ?b = slice line (a + j3) (Suc (a + j3)) @ slice line (Suc (a + j3)) ?b"
    by (rule slice_split) simp_all
  also have "slice line (a + j3) (Suc (a + j3)) = [CHR '','']"
    using r(3,7) by (simp add: slice_single)
  finally have tok: "slice line a ?b = ?A @ CHR '','' # ?B" by simp
  have "?A \<noteq> []" "?B \<noteq> []"
    using r(3,5,8) slice_length [of "a + j3" line a] slice_length [of ?b line "a + j3 + 1"]
    by auto
  with r(6,9) have ln: "locale_number (slice line a ?b)"
    unfolding tok by (intro locale_numberI)
  from m r(1) assms have "v = strip (slice line a ?b)"
    by (simp add: value_match_def)
  with ln have v: "v = slice line a ?b" by (simp add: strip_locale_number)
  from r(2) have "0 < a" by simp
  with v ln r(3,4,10) show ?thesis
    by (intro exI [of _ a] exI [of _ ?b]) simp
qed

lemma value_match_locale_number: "value_match line = Some v \<Longrightarrow> locale_number v"
  using value_match_facts by blast

section \<open>Locale numbers convert\<close>

lemma replace_chr_append: "replace_chr c r (xs @ ys) = replace_chr c r xs @ replace_chr c r ys"
  by (simp add: replace_chr_def)

lemma replace_chr_absent: "c \<notin> set s \<Longrightarrow> replace_chr c r s = s"
  by (induction s) (auto simp: replace_chr_def)

lemma replace_chr_delete: "replace_chr c [] s = filter (\<lambda>x. x \<noteq> c) s"
  by (induction s) (auto simp: replace_chr_def)

lemma replace_chr_single: "replace_chr c r [c] = r"
  by (simp add: replace_chr_def)

lemma digits_no_underscore: "list_all isdigit ds \<Longrightarrow> no_double_underscore ds"
  by (induction ds rule: no_double_underscore.induct) (auto simp: isdigit_def)

lemma digitpart_digits:
  assumes "ds \<noteq> []" "list_all isdigit ds"
  shows "digitpart ds = Some ds"
proof -
  from assms have "isdigit (hd ds)" "isdigit (last ds)"
    by (simp_all add: list_all_iff)
  moreover from assms(2) have "list_all (\<lambda>c. isdigit c \<or> c = CHR ''_'') ds"
    by (simp add: list_all_iff)
  moreover from assms(2) have "filter isdigit ds = ds"
    by (simp add: list_all_iff)
  ultimately show ?thesis
    using assms digits_no_underscore by (simp add: digitpart_def)
qed

lemma digit_facts:
  "isdigit c \<Longrightarrow> c \<noteq> CHR ''.'' \<and> c \<noteq> CHR '','' \<and> c \<noteq> CHR ''-'' \<and> c \<noteq> CHR ''+''
     \<and> \<not> is_e c \<and> \<not> isspace c"
  by (auto simp: isdigit_def is_e_def isspace_def Let_def)

lemma mantissa_point:
  assumes "list_all isdigit a" "b \<noteq> []" "list_all isdigit b"
  shows "mantissa (a @ CHR ''.'' # b)
         = Some (of_nat (nat_of_digits a) + of_nat (nat_of_digits b) / 10 ^ length b)"
proof -
  have nd: "\<forall>c \<in> set a. c \<noteq> CHR ''.''"
    using assms(1) digit_facts by (auto simp: list_all_iff)
  then have tw: "takeWhile (\<lambda>c. c \<noteq> CHR ''.'') (a @ CHR ''.'' # b) = a"
    by (simp add: takeWhile_append2)
  from nd have dw: "dropWhile (\<lambda>c. c \<noteq> CHR ''.'') (a @ CHR ''.'' # b) = CHR ''.'' # b"
    by (simp add: dropWhile_append2)
  have da: "(if a = [] then Some [] else digitpart a) = Some a"
    using assms(1) by (simp add: digitpart_digits)
  have db: "digitpart b = Some b"
    using assms(2,3) by (rule digitpart_digits)
  show ?thesis
    unfolding mantissa_def tw dw Let_def using assms(2) da db by simp
qed

lemma float_space_isspace: "float_space c \<Longrightarrow> isspace c"
  by (auto simp: float_space_def isspace_def Let_def)

lemma float_strip_no_space:
  assumes "s \<noteq> []" "\<forall>c \<in> set s. \<not> isspace c"
  shows "float_strip s = s"
proof -
  from assms(1) have "hd s \<in> set s" "last s \<in> set s" by simp_all
  with assms(2) have h: "\<not> float_space (hd s)" and l: "\<not> float_space (last s)"
    using float_space_isspace by blast+
  from assms(1) h have 1: "dropWhile float_space s = s" by (cases s) auto
  from assms(1) l have "\<not> float_space (hd (rev s))" by (simp add: hd_rev)
  with assms(1) have "dropWhile float_space (rev s) = rev s" by (cases "rev s") auto
  with 1 show ?thesis by (simp add: float_strip_def)
qed

lemma split_sign_plain:
  "c \<noteq> CHR ''-'' \<Longrightarrow> c \<noteq> CHR ''+'' \<Longrightarrow> split_sign (c # cs) = (False, c # cs)"
  by (simp add: split_sign_def)

lemma floatnumber_no_e:
  assumes "\<forall>c \<in> set u. \<not> is_e c"
  shows "floatnumber u = mantissa u"
proof -
  from assms have tw: "takeWhile (\<lambda>c. \<not> is_e c) u = u"
    by (simp add: takeWhile_eq_all_conv)
  from assms have dw: "dropWhile (\<lambda>c. \<not> is_e c) u = []"
    by simp
  show ?thesis
    unfolding floatnumber_def tw dw Let_def by (cases "mantissa u") simp_all
qed

lemma py_float_plain:
  assumes "u \<noteq> []" "\<forall>c \<in> set u. isdigit c \<or> c = CHR ''.''"
  shows "py_float u = mantissa u"
proof -
  have ns: "\<forall>c \<in> set u. \<not> isspace c"
  proof
    fix c assume "c \<in> set u"
    with assms(2) have "isdigit c \<or> c = CHR ''.''" by blast
    then show "\<not> isspace c"
      using digit_facts [of c] by (auto simp: isspace_def)
  qed
  have ne: "\<forall>c \<in> set u. \<not> is_e c"
  proof
    fix c assume "c \<in> set u"
    with assms(2) have "isdigit c \<or> c = CHR ''.''" by blast
    then show "\<not> is_e c"
      using digit_facts [of c] by (auto simp: is_e_def)
  qed
  obtain c cs where u: "u = c # cs" using assms(1) by (cases u) auto
  with assms(2) have "isdigit c \<or> c = CHR ''.''" by simp
  then have "c \<noteq> CHR ''-''" "c \<noteq> CHR ''+''"
    using digit_facts [of c] by auto
  then have sg: "split_sign u = (False, u)"
    unfolding u by (rule split_sign_plain)
  have st: "float_strip u = u" using assms(1) ns by (rule float_strip_no_space)
  have fl: "floatnumber u = mantissa u" using ne by (rule floatnumber_no_e)
  show ?thesis
    unfolding py_float_def st sg by (cases "mantissa u") (simp_all add: fl)
qed

lemma py_float_point:
  assumes "list_all isdigit a" "b \<noteq> []" "list_all isdigit b"
  shows "py_float (a @ CHR ''.'' # b)
         = Some (of_nat (nat_of_digits a) + of_nat (nat_of_digits b) / 10 ^ length b)"
proof -
  have "\<forall>c \<in> set (a @ CHR ''.'' # b). isdigit c \<or> c = CHR ''.''"
    using assms(1,3) by (auto simp: list_all_iff)
  then have "py_float (a @ CHR ''.'' # b) = mantissa (a @ CHR ''.'' # b)"
    by (intro py_float_plain) simp
  then show ?thesis by (simp only: mantissa_point [OF assms])
qed

lemma parse_value_locale_number:
  assumes "A \<noteq> []" "list_all digit_or_dot A" "B \<noteq> []" "list_all isdigit B"
  shows "parse_value (A @ CHR '','' # B)
         = Some (of_nat (nat_of_digits (filter (\<lambda>x. x \<noteq> CHR ''.'') A))
                 + of_nat (nat_of_digits B) / 10 ^ length B)"
proof -
  let ?A = "filter (\<lambda>x. x \<noteq> CHR ''.'') A"
  have dA: "list_all isdigit ?A"
    using assms(2) by (auto simp: list_all_iff digit_or_dot_def)
  have nB: "\<forall>c \<in> set B. c \<noteq> CHR ''.'' \<and> c \<noteq> CHR '',''"
    using assms(4) digit_facts by (auto simp: list_all_iff)
  have nA: "\<forall>c \<in> set ?A. c \<noteq> CHR '',''"
    using dA digit_facts by (auto simp: list_all_iff)
  have "filter (\<lambda>x. x \<noteq> CHR ''.'') B = B" using nB by simp
  then have r1: "replace_chr CHR ''.'' [] (A @ CHR '','' # B) = ?A @ CHR '','' # B"
    by (simp add: replace_chr_delete)
  have "replace_chr CHR '','' ''.'' (?A @ [CHR '',''] @ B)
        = replace_chr CHR '','' ''.'' ?A @ replace_chr CHR '','' ''.'' [CHR '','']
          @ replace_chr CHR '','' ''.'' B"
    by (simp only: replace_chr_append)
  also have "replace_chr CHR '','' ''.'' ?A = ?A"
    using nA by (intro replace_chr_absent) blast
  also have "replace_chr CHR '','' ''.'' B = B"
    using nB by (intro replace_chr_absent) blast
  finally have r2: "replace_chr CHR '','' ''.'' (?A @ CHR '','' # B) = ?A @ CHR ''.'' # B"
    by (simp add: replace_chr_single)
  show ?thesis
    unfolding parse_value_def r1 r2 by (rule py_float_point [OF dA assms(3,4)])
qed

lemma locale_number_parses: "locale_number tok \<Longrightarrow> \<exists>q. parse_value tok = Some q"
  using locale_numberD parse_value_locale_number by blast

section \<open>The value pattern finds the last token\<close>

lemma first_match_exists:
  "i \<in> set starts \<Longrightarrow> run p s i \<noteq> [] \<Longrightarrow> first_match p s starts \<noteq> None"
  by (induction starts) (auto split: list.splits)

lemma slice_middle: "slice (xs @ ys @ zs) (length xs) (length xs + length ys) = ys"
  by (simp add: slice_def)

lemma run_Rep_step:
  assumes "slice s i (i + j) = xs" "list_all P xs" "m \<in> set (run r s (i + j))"
    "lo \<le> j" "i + j \<le> length s" "case hi of None \<Rightarrow> True | Some h \<Rightarrow> j \<le> h"
  shows "m \<in> set (run (Rep P lo hi g # r) s i)"
  using assms by (intro run_RepI [where j = j]) simp_all

lemma run_value_pattern_exists:
  assumes w: "isspace w" and A: "A \<noteq> []" "list_all digit_or_dot A"
    and B: "B \<noteq> []" "list_all isdigit B"
  shows "run value_pattern (pre @ w # A @ CHR '','' # B) (length pre) \<noteq> []"
proof -
  let ?s = "pre @ w # A @ CHR '','' # B"
  let ?p1 = "length pre" and ?p2 = "length pre + 1" and ?p3 = "length pre + 1 + length A"
  let ?p4 = "length pre + 1 + length A + 1" and ?p5 = "length pre + 1 + length A + 1 + length B"
  have s1: "slice ?s ?p1 (?p1 + 0) = []" by (simp add: slice_def)
  have s2: "slice ?s ?p1 (?p1 + 1) = [w]"
    using slice_middle [of pre "[w]" "A @ CHR '','' # B"] by simp
  have s3: "slice ?s ?p2 (?p2 + length A) = A"
    using slice_middle [of "pre @ [w]" A "CHR '','' # B"] by simp
  have s4: "slice ?s ?p3 (?p3 + 1) = [CHR '','']"
    using slice_middle [of "pre @ w # A" "[CHR '','']" B] by simp
  have s5: "slice ?s ?p4 (?p4 + length B) = B"
    using slice_middle [of "pre @ w # A @ [CHR '','']" B "[]"] by simp
  have e: "[?p5] \<in> set (run [Close, Eol] ?s ?p5)"
    by (simp add: at_eol_def)
  have r5: "[?p5] \<in> set (run (Rep isdigit 1 None True # [Close, Eol]) ?s ?p4)"
    using B(1) by (intro run_Rep_step [OF s5 B(2) e]) (simp_all add: Suc_le_eq)
  have r4: "[?p5] \<in> set (run (Rep comma 1 (Some 1) True #
      [Rep isdigit 1 None True, Close, Eol]) ?s ?p3)"
    by (intro run_Rep_step [OF s4 _ r5]) (simp_all add: comma_def)
  have r3: "[?p5] \<in> set (run (Rep digit_or_dot 1 None True #
      [Rep comma 1 (Some 1) True, Rep isdigit 1 None True, Close, Eol]) ?s ?p2)"
    using A(1) by (intro run_Rep_step [OF s3 A(2) r4]) (simp_all add: Suc_le_eq)
  have r2o: "[?p2, ?p5] \<in> set (run (Open # [Rep digit_or_dot 1 None True,
      Rep comma 1 (Some 1) True, Rep isdigit 1 None True, Close, Eol]) ?s (?p1 + 1))"
    unfolding run.simps(2) using r3 by (simp del: run.simps)
  have r2: "[?p2, ?p5] \<in> set (run (Rep isspace 1 None True #
      [Open, Rep digit_or_dot 1 None True,
      Rep comma 1 (Some 1) True, Rep isdigit 1 None True, Close, Eol]) ?s ?p1)"
    using w by (intro run_Rep_step [OF s2 _ r2o]) simp_all
  then have r2: "[?p2, ?p5] \<in> set (run (Rep isspace 1 None True #
      [Open, Rep digit_or_dot 1 None True,
      Rep comma 1 (Some 1) True, Rep isdigit 1 None True, Close, Eol]) ?s (?p1 + 0))"
    by (simp del: run.simps)
  have r1: "[?p2, ?p5] \<in> set (run (Rep dot 0 None True #
      [Rep isspace 1 None True, Open, Rep digit_or_dot 1 None True,
      Rep comma 1 (Some 1) True, Rep isdigit 1 None True, Close, Eol]) ?s ?p1)"
    by (intro run_Rep_step [OF s1 _ r2]) simp_all
  then have "[?p2, ?p5] \<in> set (run value_pattern ?s ?p1)"
    unfolding value_pattern_def star_def plus_def exactly_def .
  then show ?thesis by (metis empty_iff empty_set)
qed

lemma value_match_complete:
  assumes w: "isspace w" and ln: "locale_number tok"
  shows "value_match (pre @ w # tok) = Some tok"
proof -
  let ?line = "pre @ w # tok"
  from locale_numberD [OF ln] obtain A B where tok: "tok = A @ CHR '','' # B"
    and AB: "A \<noteq> []" "list_all digit_or_dot A" "B \<noteq> []" "list_all isdigit B"
    by blast
  have "run value_pattern ?line (length pre) \<noteq> []"
    unfolding tok by (rule run_value_pattern_exists [OF w AB])
  moreover have "length pre \<in> set [0 ..< Suc (length ?line)]" by simp
  ultimately have "re_search value_pattern ?line \<noteq> None"
    unfolding re_search_def by (rule first_match_exists [rotated])
  then obtain m where m: "re_search value_pattern ?line = Some m" by blast
  then have fm: "first_match value_pattern ?line [0 ..< Suc (length ?line)] = Some m"
    by (simp add: re_search_def)
  from first_match_Some [OF fm] obtain i
    where i0: "i \<in> set [0 ..< Suc (length ?line)]" and i1: "m \<in> set (run value_pattern ?line i)"
    by blast
  from i0 have "i \<le> length ?line" by auto
  from run_value_pattern [OF this i1] obtain a b where "m = [a, b]" by blast
  with m have "value_match ?line = Some (strip (slice ?line a b))"
    by (simp add: value_match_def)
  then obtain v where v: "value_match ?line = Some v" by blast
  from value_match_facts [OF v] obtain a b where f:
    "0 < a" "a \<le> b" "b \<le> length ?line" "isspace (?line ! (a - 1))"
    "v = slice ?line a b" "locale_number v" "at_eol ?line b"
    by blast
  have tne: "tok \<noteq> []" using ln by (rule locale_number_nonempty)
  have last_tok: "\<not> isspace (last tok)" "last tok \<noteq> newline"
  proof -
    from tne have "last tok \<in> set tok" by simp
    with ln show "\<not> isspace (last tok)" by (rule locale_number_no_space)
    then show "last tok \<noteq> newline" by (auto simp: isspace_def)
  qed
  have b: "b = length ?line"
  proof (rule ccontr)
    assume "b \<noteq> length ?line"
    with f(7) have sb: "Suc b = length ?line" and nl: "?line ! b = newline"
      by (auto simp: at_eol_def)
    from sb have "?line ! b = last ?line"
      by (metis diff_Suc_1 last_conv_nth length_0_conv nat.distinct(1))
    also have "\<dots> = last tok" using tne by simp
    finally show False using nl last_tok(2) by simp
  qed
  have v_drop: "v = drop a ?line" using f(5) b by (simp add: slice_def)
  have ge: "length pre < a"
  proof (rule ccontr)
    assume "\<not> length pre < a"
    then have "a \<le> length pre" by simp
    then have "drop a ?line = drop a pre @ w # tok" by simp
    then have "w \<in> set v" using v_drop by simp
    with f(6) w show False using locale_number_no_space by blast
  qed
  have le: "a \<le> Suc (length pre)"
  proof (rule ccontr)
    assume "\<not> a \<le> Suc (length pre)"
    then have gt: "Suc (length pre) < a" by simp
    define k where "k = a - 1 - Suc (length pre)"
    from gt have a1: "a - 1 = length pre + Suc k" by (simp add: k_def)
    from gt f(2) b have k: "k < length tok" by (simp add: k_def)
    have "?line ! (length pre + Suc k) = tok ! k" by (simp add: nth_append)
    then have "?line ! (a - 1) = tok ! k" unfolding a1 .
    then have "?line ! (a - 1) \<in> set tok" using k by simp
    with ln f(4) show False using locale_number_no_space by blast
  qed
  from ge le have "a = Suc (length pre)" by simp
  with v_drop have "v = tok" by simp
  with v show ?thesis by simp
qed

section \<open>Properties of the extractor\<close>

lemma scan_values:
  "item \<in> set (scan cl i) \<Longrightarrow> \<exists>v. value item = Some v \<and> locale_number v"
proof (induction cl i rule: scan.induct)
  case (1 cl i)
  show ?case
  proof (cases "i + 2 < length cl")
    case False
    with "1.prems" show ?thesis by (simp add: scan.simps [of cl i])
  next
    case True
    show ?thesis
    proof (cases "person_match (cl ! i)")
      case None
      with True "1.prems" have "item \<in> set (scan cl (i + 1))"
        by (simp add: scan.simps [of cl i])
      with "1.IH"(1) [OF True None] show ?thesis .
    next
      case (Some p)
      obtain n c r where p: "p = (n, c, r)" by (cases p)
      show ?thesis
      proof (cases "value_match (cl ! (i + 1))")
        case None
        with True Some p "1.prems" have "item \<in> set (scan cl (i + 3))"
          by (simp add: scan.simps [of cl i])
        with "1.IH"(2) [OF True Some p [symmetric] refl None] show ?thesis .
      next
        case (Some v)
        with True \<open>person_match (cl ! i) = Some p\<close> p "1.prems"
        have "item = new_person n c r v \<or> item \<in> set (scan cl (i + 3))"
          by (simp add: scan.simps [of cl i])
        then show ?thesis
        proof
          assume "item = new_person n c r v"
          with value_match_locale_number [OF Some] show ?thesis
            by (simp add: new_person_def)
        next
          assume "item \<in> set (scan cl (i + 3))"
          with "1.IH"(3) [OF True \<open>person_match (cl ! i) = Some p\<close> p [symmetric] refl Some]
          show ?thesis .
        qed
      qed
    qed
  qed
qed

lemma ev_person: "person_match ''JOAO SILVA 111111 OPERADOR'' = Some (''JOAO SILVA'', ''111111'', ''OPERADOR'')"
  by code_simp

lemma extract_bare:
  "extract_data_from_txt [''JOAO SILVA 111111 OPERADOR'', ''1.234,56'', ''x'',
      ''MARIA SOUZA 222222 ANALISTA'', ''2.000,00'', ''y''] = []"
  by code_simp

lemma extract_labelled:
  "extract_data_from_txt [''JOAO SILVA 111111 OPERADOR'', ''P 1.234,56'', ''x'',
      ''MARIA SOUZA 222222 ANALISTA'', ''P 2.000,00'', ''y'']
   = [new_person ''JOAO SILVA'' ''111111'' ''OPERADOR'' ''1.234,56'',
      new_person ''MARIA SOUZA'' ''222222'' ''ANALISTA'' ''2.000,00'']"
  by code_simp

lemma parse_first: "parse_value ''1.234,56'' = Some (30864 / 25)"
  by (simp add: float_eval)

lemma parse_second: "parse_value ''2.000,00'' = Some 2000"
  by (simp add: float_eval)

lemma total_labelled:
  "calculate_total_value [new_person ''JOAO SILVA'' ''111111'' ''OPERADOR'' ''1.234,56'',
      new_person ''MARIA SOUZA'' ''222222'' ''ANALISTA'' ''2.000,00''] = 80864 / 25"
  by (simp add: calculate_total_value_def add_value_def get_value_def new_person_def
      parse_first parse_second)

lemma pct_first: "try_percentage (80864 / 25) ''1.234,56'' = Inr (96450 / 2527)"
  by (simp add: try_percentage_def parse_first)

lemma pct_second: "try_percentage (80864 / 25) ''2.000,00'' = Inr (156250 / 2527)"
  by (simp add: try_percentage_def parse_second)

lemma fmt_first: "format_brazilian_number (96450 / 2527) 6 = ''38,167788''"
proof -
  have sc: "scaled (96450 / 2527) 6 = 38167788"
    using round_half_even_frac [of 2527 96450000000] by (simp add: scaled_def)
  have ar: "(38167788::nat) div 10 ^ 6 = 38" "(38167788::nat) mod 10 ^ 6 = 167788" by simp_all
  have st: "str_nat 38 = ''38''" "str_nat 167788 = ''167788''"
    by (simp_all add: str_nat.simps digit_char_def)
  have gr: "grouped ''38'' = ''38''" by (simp add: grouped_def chunks3.simps)
  have zf: "zfill 6 ''167788'' = ''167788''" by (simp add: zfill_def)
  show ?thesis
    by (simp only: format_brazilian_number_nonneg sc ar st gr zf) simp
qed

lemma fmt_second: "format_brazilian_number (156250 / 2527) 6 = ''61,832212''"
proof -
  have sc: "scaled (156250 / 2527) 6 = 61832212"
    using round_half_even_frac [of 2527 156250000000] by (simp add: scaled_def)
  have ar: "(61832212::nat) div 10 ^ 6 = 61" "(61832212::nat) mod 10 ^ 6 = 832212" by simp_all
  have st: "str_nat 61 = ''61''" "str_nat 832212 = ''832212''"
    by (simp_all add: str_nat.simps digit_char_def)
  have gr: "grouped ''61'' = ''61''" by (simp add: grouped_def chunks3.simps)
  have zf: "zfill 6 ''832212'' = ''832212''" by (simp add: zfill_def)
  show ?thesis
    by (simp only: format_brazilian_number_nonneg sc ar st gr zf) simp
qed

lemma aggregate_labelled:
  "calculate_percentages_and_distribution
     [new_person ''JOAO SILVA'' ''111111'' ''OPERADOR'' ''1.234,56'',
      new_person ''MARIA SOUZA'' ''222222'' ''ANALISTA'' ''2.000,00''] None
   = [\<lparr>name = ''JOAO SILVA'', code = ''111111'', role = ''OPERADOR'', value = Some ''1.234,56'',
        percentage = Some ''38,167788'', percentage_float = Some (96450 / 2527),
        total = None, total_float = None\<rparr>,
      \<lparr>name = ''MARIA SOUZA'', code = ''222222'', role = ''ANALISTA'', value = Some ''2.000,00'',
        percentage = Some ''61,832212'', percentage_float = Some (156250 / 2527),
        total = None, total_float = None\<rparr>]"
  unfolding calculate_percentages_and_distribution_def total_labelled
  by (simp add: enrich_def get_value_def new_person_def pct_first pct_second fmt_first fmt_second)

lemma value_match_labelled: "value_match ''P 1.234,56'' = Some ''1.234,56''"
  by code_simp

lemma locale_number_first: "locale_number ''1.234,56''"
  by (simp add: locale_number_def digit_or_dot_def isdigit_def)

lemma extract_one:
  "extract_data_from_txt [''JOAO SILVA 111111 OPERADOR'', ''P 1.234,56'', ''x'']
   = [new_person ''JOAO SILVA'' ''111111'' ''OPERADOR'' ''1.234,56'']"
  by code_simp

lemma scan_end: "scan [a, b, c] 3 = []"
  by (simp add: scan.simps)

text \<open>
  Claim C1, as amended. On the six lines of the scenario the scan emits no record,
  because neither value line has whitespace before its number, and the aggregator
  returns the empty list. When each value line carries a label before the number
  (\<open>P 1.234,56\<close> and \<open>P 2.000,00\<close>), the scan followed by the aggregator with no
  distribution amount yields exactly two records; their \<open>percentage_float\<close> are
  96450/2527 and 156250/2527, within one millionth of 38.167788 and 61.832212, and
  sum to 100.
\<close>

theorem end_to_end_scenario:
  "extract_data_from_txt [''JOAO SILVA 111111 OPERADOR'', ''1.234,56'', ''x'',
      ''MARIA SOUZA 222222 ANALISTA'', ''2.000,00'', ''y''] = []
   \<and> calculate_percentages_and_distribution
       (extract_data_from_txt [''JOAO SILVA 111111 OPERADOR'', ''1.234,56'', ''x'',
          ''MARIA SOUZA 222222 ANALISTA'', ''2.000,00'', ''y'']) None = []
   \<and> calculate_percentages_and_distribution
       (extract_data_from_txt [''JOAO SILVA 111111 OPERADOR'', ''P 1.234,56'', ''x'',
          ''MARIA SOUZA 222222 ANALISTA'', ''P 2.000,00'', ''y'']) None
     = [\<lparr>name = ''JOAO SILVA'', code = ''111111'', role = ''OPERADOR'', value = Some ''1.234,56'',
          percentage = Some ''38,167788'', percentage_float = Some (96450 / 2527),
          total = None, total_float = None\<rparr>,
        \<lparr>name = ''MARIA SOUZA'', code = ''222222'', role = ''ANALISTA'', value = Some ''2.000,00'',
          percentage = Some ''61,832212'', percentage_float = Some (156250 / 2527),
          total = None, total_float = None\<rparr>]
   \<and> \<bar>(96450 / 2527 :: rat) - 38167788 / 10 ^ 6\<bar> < 1 / 10 ^ 6
   \<and> \<bar>(156250 / 2527 :: rat) - 61832212 / 10 ^ 6\<bar> < 1 / 10 ^ 6
   \<and> sum_percentage_float (calculate_percentages_and_distribution
       (extract_data_from_txt [''JOAO SILVA 111111 OPERADOR'', ''P 1.234,56'', ''x'',
          ''MARIA SOUZA 222222 ANALISTA'', ''P 2.000,00'', ''y'']) None) = 100"
  unfolding extract_bare extract_labelled aggregate_labelled
  by (simp add: calculate_percentages_and_distribution_def sum_percentage_float_def)

text \<open>
  Claim C1 as stated fails: on the six lines of the scenario the result does not have
  two records (it has none).
\<close>

theorem end_to_end_scenario_counterexample:
  "length (calculate_percentages_and_distribution
       (extract_data_from_txt [''JOAO SILVA 111111 OPERADOR'', ''1.234,56'', ''x'',
          ''MARIA SOUZA 222222 ANALISTA'', ''2.000,00'', ''y'']) None) \<noteq> 2"
  unfolding extract_bare
  by (simp add: calculate_percentages_and_distribution_def)

lemma value_match_shape:
  assumes "value_match line = Some v"
  shows "\<exists>p s. isspace s \<and> locale_number v
           \<and> (line = p @ s # v \<or> line = p @ s # v @ [newline])"
proof -
  from value_match_facts [OF assms] obtain a b where f:
    "0 < a" "a \<le> b" "b \<le> length line" "isspace (line ! (a - 1))"
    "v = slice line a b" "locale_number v" "at_eol line b"
    by blast
  from f(1,2,3) have a1: "a - 1 < length line" by simp
  have e1: "line = take (a - 1) line @ drop (a - 1) line"
    by (rule append_take_drop_id [symmetric])
  have e2: "drop (a - 1) line = line ! (a - 1) # drop (Suc (a - 1)) line"
    using a1 by (rule Cons_nth_drop_Suc [symmetric])
  have e3: "Suc (a - 1) = a" using f(1) by simp
  have e4: "drop a line = take (b - a) (drop a line) @ drop (b - a) (drop a line)"
    by (rule append_take_drop_id [symmetric])
  have e5: "take (b - a) (drop a line) = v" using f(5) by (simp add: slice_def)
  have e6: "drop (b - a) (drop a line) = drop b line" using f(2) by simp
  have "line = take (a - 1) line @ line ! (a - 1) # drop a line"
    using e1 e2 e3 by metis
  moreover have "drop a line = v @ drop b line"
    using e4 e5 e6 by metis
  ultimately have line: "line = take (a - 1) line @ line ! (a - 1) # v @ drop b line"
    by metis
  have "drop b line = [] \<or> drop b line = [newline]"
  proof (cases "b = length line")
    case True
    then show ?thesis by simp
  next
    case False
    with f(7) have sb: "Suc b = length line" and nl: "line ! b = newline"
      by (auto simp: at_eol_def)
    from sb have "b < length line" by simp
    then have "drop b line = line ! b # drop (Suc b) line"
      by (rule Cons_nth_drop_Suc [symmetric])
    with sb nl show ?thesis by simp
  qed
  then show ?thesis
  proof
    assume "drop b line = []"
    with line have "line = take (a - 1) line @ line ! (a - 1) # v" by simp
    with f(4,6) show ?thesis by blast
  next
    assume "drop b line = [newline]"
    with line have "line = take (a - 1) line @ line ! (a - 1) # v @ [newline]" by simp
    with f(4,6) show ?thesis by blast
  qed
qed

text \<open>
  Claim C2, as amended. When the identity pattern matches the line at cursor \<open>i\<close> and
  line \<open>i + 1\<close> ends with a whitespace character followed by a locale number (digits
  and dots, a comma, digits) that runs to the end of the line, the scan emits a record
  with the fields of the identity match whose \<open>value\<close> is that number, and goes on at
  \<open>i + 3\<close>. Conversely the value pattern captures nothing else: whenever it captures
  \<open>v\<close>, the line is some text, a whitespace character and the locale number \<open>v\<close> (and
  at most a final newline). The whitespace before the number is required: see the
  counterexample below.
\<close>

theorem scan_emits_value:
  "(i + 2 < length cleaned_lines \<and> person_match (cleaned_lines ! i) = Some (n, c, r)
      \<and> cleaned_lines ! (i + 1) = pre @ w # tok \<and> isspace w \<and> locale_number tok
    \<longrightarrow> scan cleaned_lines i = new_person n c r tok # scan cleaned_lines (i + 3)
        \<and> value (new_person n c r tok) = Some tok)
   \<and> (value_match line = Some v
    \<longrightarrow> (\<exists>p s. isspace s \<and> locale_number v
           \<and> (line = p @ s # v \<or> line = p @ s # v @ [newline])))"
proof (intro conjI impI)
  assume a: "i + 2 < length cleaned_lines \<and> person_match (cleaned_lines ! i) = Some (n, c, r)
      \<and> cleaned_lines ! (i + 1) = pre @ w # tok \<and> isspace w \<and> locale_number tok"
  then have "value_match (cleaned_lines ! (i + 1)) = Some tok"
    by (simp add: value_match_complete)
  with a show "scan cleaned_lines i = new_person n c r tok # scan cleaned_lines (i + 3)"
    by (simp add: scan.simps [of cleaned_lines i])
  show "value (new_person n c r tok) = Some tok"
    by (simp add: new_person_def)
next
  assume "value_match line = Some v"
  then show "\<exists>p s. isspace s \<and> locale_number v
           \<and> (line = p @ s # v \<or> line = p @ s # v @ [newline])"
    by (rule value_match_shape)
qed

theorem scan_emits_value_witness:
  "scan [''JOAO SILVA 111111 OPERADOR'', ''P 1.234,56'', ''x''] 0
   = [new_person ''JOAO SILVA'' ''111111'' ''OPERADOR'' ''1.234,56'']
   \<and> value_match ''P 1.234,56'' = Some ''1.234,56''
   \<and> (\<exists>p s. isspace s \<and> ''P 1.234,56'' = p @ s # ''1.234,56'')"
proof -
  let ?cl = "[''JOAO SILVA 111111 OPERADOR'', ''P 1.234,56'', ''x'']"
  have h: "0 + 2 < length ?cl
      \<and> person_match (?cl ! 0) = Some (''JOAO SILVA'', ''111111'', ''OPERADOR'')
      \<and> ?cl ! (0 + 1) = ''P'' @ CHR '' '' # ''1.234,56'' \<and> isspace CHR '' ''
      \<and> locale_number ''1.234,56''"
    using ev_person locale_number_first by (simp add: isspace_def)
  note t = scan_emits_value [of 0 ?cl "''JOAO SILVA''" "''111111''" "''OPERADOR''"
      "''P''" "CHR '' ''" "''1.234,56''" "''P 1.234,56''" "''1.234,56''"]
  from t h have 1: "scan ?cl 0 = [new_person ''JOAO SILVA'' ''111111'' ''OPERADOR'' ''1.234,56'']"
    by (simp add: scan_end)
  from t value_match_labelled
  have "\<exists>p s. isspace s \<and> locale_number ''1.234,56''
           \<and> (''P 1.234,56'' = p @ s # ''1.234,56'' \<or> ''P 1.234,56'' = p @ s # ''1.234,56'' @ [newline])"
    by blast
  then have 2: "\<exists>p s. isspace s \<and> ''P 1.234,56'' = p @ s # ''1.234,56''"
    by (auto simp: append_eq_Cons_conv Cons_eq_append_conv)
  from 1 2 value_match_labelled show ?thesis by blast
qed

text \<open>
  Claim C2 as stated fails for a value line that consists of the number alone: the
  identity line matches, \<open>99,5\<close> is a locale number, and no record is emitted.
\<close>

theorem scan_bare_number_counterexample:
  "person_match ''ANA LIMA 123456 AUX'' = Some (''ANA LIMA'', ''123456'', ''AUX'')
   \<and> locale_number ''99,5''
   \<and> scan [''ANA LIMA 123456 AUX'', ''99,5'', ''z''] 0 = []"
  by code_simp

text \<open>
  Claim C10. Every string the value pattern captures is a locale number and converts.
  Hence every record of \<open>extract_data_from_txt\<close> has a non-empty \<open>value\<close> that converts
  to some \<open>q\<close>; the loop of \<open>calculate_total_value\<close> adds exactly \<open>q\<close> for it, so the
  total is the sum of the converted values; and the \<open>try\<close> block of
  \<open>calculate_percentages_and_distribution\<close> never raises \<open>ValueError\<close> for it: it raises
  \<open>ZeroDivisionError\<close> when the total is zero and computes the percentage otherwise.
\<close>

theorem extracted_values_parse:
  "(value_match line = Some v \<longrightarrow> locale_number v \<and> parse_value v \<noteq> None)
   \<and> list_all parses (extract_data_from_txt lines)
   \<and> calculate_total_value (extract_data_from_txt lines)
       = sum_list (map value_float (extract_data_from_txt lines))
   \<and> (\<forall>item \<in> set (extract_data_from_txt lines).
        \<exists>v q. get_value item = Some v \<and> locale_number v \<and> parse_value v = Some q
          \<and> value_float item = q \<and> add_value acc item = acc + q
          \<and> try_percentage t v = (if t = 0 then Inl ZeroDivisionError else Inr (q / t * 100)))"
proof (intro conjI impI ballI)
  assume "value_match line = Some v"
  then show "locale_number v" by (rule value_match_locale_number)
  then show "parse_value v \<noteq> None" using locale_number_parses by fastforce
next
  show "list_all parses (extract_data_from_txt lines)"
    unfolding list_all_iff extract_data_from_txt_def
  proof
    fix item assume "item \<in> set (scan (prepass lines) 0)"
    from scan_values [OF this] obtain v where "value item = Some v" "locale_number v" by blast
    then show "parses item" using locale_number_parses by (fastforce simp: parses_def)
  qed
next
  show "calculate_total_value (extract_data_from_txt lines)
       = sum_list (map value_float (extract_data_from_txt lines))"
    by (rule total_value_sum)
next
  fix item assume "item \<in> set (extract_data_from_txt lines)"
  then have "item \<in> set (scan (prepass lines) 0)" by (simp add: extract_data_from_txt_def)
  from scan_values [OF this] obtain v where v: "value item = Some v" "locale_number v" by blast
  from locale_number_parses [OF v(2)] obtain q where q: "parse_value v = Some q" by blast
  from v(2) have "v \<noteq> []" by (rule locale_number_nonempty)
  with v(1) have g: "get_value item = Some v" by (simp add: get_value_def)
  have "value_float item = q" using v(1) q by (simp add: value_float_def)
  moreover have "add_value acc item = acc + q" using g q by (simp add: add_value_def)
  moreover have "try_percentage t v = (if t = 0 then Inl ZeroDivisionError else Inr (q / t * 100))"
    using q by (simp add: try_percentage_def)
  ultimately show "\<exists>v q. get_value item = Some v \<and> locale_number v \<and> parse_value v = Some q
          \<and> value_float item = q \<and> add_value acc item = acc + q
          \<and> try_percentage t v = (if t = 0 then Inl ZeroDivisionError else Inr (q / t * 100))"
    using g v(2) q by blast
qed

theorem extracted_values_parse_witness:
  "value_match ''P 1.234,56'' = Some ''1.234,56''
   \<and> parse_value ''1.234,56'' \<noteq> None
   \<and> extract_data_from_txt [''JOAO SILVA 111111 OPERADOR'', ''P 1.234,56'', ''x''] \<noteq> []
   \<and> list_all parses (extract_data_from_txt [''JOAO SILVA 111111 OPERADOR'', ''P 1.234,56'', ''x''])"
proof -
  have ne: "extract_data_from_txt [''JOAO SILVA 111111 OPERADOR'', ''P 1.234,56'', ''x''] \<noteq> []"
    by (simp add: extract_one)
  from extracted_values_parse [of "''P 1.234,56''" "''1.234,56''"
      "[''JOAO SILVA 111111 OPERADOR'', ''P 1.234,56'', ''x'']"]
    value_match_labelled ne
  show ?thesis by blast
qed

end
